theory Spec2Isabelle
  imports Complex_Main "HOL-Library.Multiset"
begin

section \<open>Tensors\<close>

text \<open>
  A tensor is its shape and its elements in row-major order, as torch stores a contiguous
  tensor. Element types: \<open>nat\<close> for index tensors; \<open>real\<close> for the gate matrix, whose
  entries are finite numbers that are compared and copied; \<open>f32\<close> (below) for the float32
  tensors \<open>combine\<close> computes with.
\<close>

datatype error = IndexError | ValueError | RuntimeError | TypeError

record 'a tensor =
  dims :: "nat list"
  elems :: "'a list"

definition wf_tensor :: "'a tensor \<Rightarrow> bool" where
  "wf_tensor t \<longleftrightarrow> length (elems t) = prod_list (dims t)"

definition ebind :: "error + 'a \<Rightarrow> ('a \<Rightarrow> error + 'b) \<Rightarrow> error + 'b" where
  "ebind m f = (case m of Inl e \<Rightarrow> Inl e | Inr v \<Rightarrow> f v)"

text \<open>The number of elements of one slice along dimension 0, and the i-th slice.\<close>

definition rowsize :: "'a tensor \<Rightarrow> nat" where
  "rowsize t = prod_list (tl (dims t))"

definition row :: "'a tensor \<Rightarrow> nat \<Rightarrow> 'a list" where
  "row t i = take (rowsize t) (drop (i * rowsize t) (elems t))"

definition rows_of :: "'a tensor \<Rightarrow> 'a list list" where
  "rows_of t = map (row t) [0..<hd (dims t)]"

text \<open>\<open>t.size(k)\<close>: raises IndexError when the tensor has no dimension k.\<close>

definition size_t :: "'a tensor \<Rightarrow> nat \<Rightarrow> error + nat" where
  "size_t t k = (if k < length (dims t) then Inr (dims t ! k) else Inl IndexError)"

text \<open>Element \<open>g[i, e]\<close> of a 2-D tensor.\<close>

definition at2 :: "'a tensor \<Rightarrow> nat \<Rightarrow> nat \<Rightarrow> 'a" where
  "at2 g i e = elems g ! (i * (dims g ! 1) + e)"

text \<open>
  \<open>torch.nonzero(g)\<close> of a 2-D tensor: the coordinates of the entries different from
  zero, in row-major order, one pair (row, column) per entry.
\<close>

definition nonzero :: "real tensor \<Rightarrow> (nat \<times> nat) list" where
  "nonzero g = filter (\<lambda>(i, e). at2 g i e \<noteq> 0)
     (List.product [0..<dims g ! 0] [0..<dims g ! 1])"

text \<open>
  \<open>torch.sort\<close> of a 1-D integer tensor returns the sorted values and the indices of
  these values in the input. The source calls it without \<open>stable=True\<close>, so which
  permutation it returns for equal keys is not fixed by the call: the index result is the
  parameter \<open>srt\<close>, and \<open>argsorts\<close> is what torch.sort promises of it.
\<close>

definition torch_sort :: "(nat list \<Rightarrow> nat list) \<Rightarrow> nat list \<Rightarrow> nat list \<times> nat list" where
  "torch_sort srt ks = (map ((!) ks) (srt ks), srt ks)"

definition argsorts :: "(nat list \<Rightarrow> nat list) \<Rightarrow> nat list \<Rightarrow> bool" where
  "argsorts srt ks \<longleftrightarrow> sort (srt ks) = [0..<length ks] \<and> sorted (map ((!) ks) (srt ks))"

text \<open>The stable sorting permutation (the one \<open>stable=True\<close> would return).\<close>

definition stable_argsort :: "nat list \<Rightarrow> nat list" where
  "stable_argsort ks = sort_key ((!) ks) [0..<length ks]"

text \<open>Indexing a 1-D tensor (a list) by an index tensor: \<open>xs[idx]\<close>.\<close>

definition index_list :: "'a list \<Rightarrow> nat list \<Rightarrow> error + 'a list" where
  "index_list xs idx =
     (if \<forall>i \<in> set idx. i < length xs then Inr (map ((!) xs) idx) else Inl IndexError)"

text \<open>
  \<open>t[idx]\<close> with a 1-D index tensor: the slices \<open>t[idx[0]], t[idx[1]], ...\<close> stacked along
  a new leading dimension.
\<close>

definition index_select :: "'a tensor \<Rightarrow> nat list \<Rightarrow> error + 'a tensor" where
  "index_select t idx =
     (if dims t = [] then Inl IndexError
      else if \<exists>i \<in> set idx. hd (dims t) \<le> i then Inl IndexError
      else Inr \<lparr>dims = length idx # tl (dims t), elems = concat (map (row t) idx)\<rparr>)"

text \<open>
  \<open>t.squeeze(1)\<close>: dimension 1 is removed when its size is 1; IndexError when the tensor
  has no dimension 1.
\<close>

definition squeeze1 :: "'a tensor \<Rightarrow> error + 'a tensor" where
  "squeeze1 t =
     (if length (dims t) < 2 then Inl IndexError
      else if dims t ! 1 = 1 then Inr (t\<lparr>dims := hd (dims t) # drop 2 (dims t)\<rparr>)
      else Inr t)"

text \<open>
  \<open>torch.split(t, sizes, dim=0)\<close>: consecutive chunks of the given sizes along dimension
  0; the sizes must add up to the size of that dimension.
\<close>

fun split_list :: "nat list \<Rightarrow> 'a list \<Rightarrow> 'a list list" where
  "split_list [] xs = []"
| "split_list (n # ns) xs = take n xs # split_list ns (drop n xs)"

fun split_elems :: "nat \<Rightarrow> nat list \<Rightarrow> 'a list \<Rightarrow> 'a list list" where
  "split_elems rs [] xs = []"
| "split_elems rs (n # ns) xs = take (n * rs) xs # split_elems rs ns (drop (n * rs) xs)"

definition torch_split :: "'a tensor \<Rightarrow> nat list \<Rightarrow> error + 'a tensor list" where
  "torch_split t sizes =
     (if dims t = [] then Inl IndexError
      else if sum_list sizes \<noteq> hd (dims t) then Inl RuntimeError
      else Inr (map2 (\<lambda>n es. \<lparr>dims = n # tl (dims t), elems = es\<rparr>) sizes
                  (split_elems (rowsize t) sizes (elems t))))"

text \<open>
  \<open>torch.cat(ts, 0)\<close>: the list must not be empty; 1-D empty tensors (shape \<open>(0,)\<close>) are
  skipped; the others must have at least one dimension and agree in every dimension but
  the first.
\<close>

definition cat_skip :: "'a tensor \<Rightarrow> bool" where
  "cat_skip t \<longleftrightarrow> dims t = [0]"

definition torch_cat :: "'a tensor list \<Rightarrow> error + 'a tensor" where
  "torch_cat ts =
     (if ts = [] then Inl ValueError
      else case filter (\<lambda>t. \<not> cat_skip t) ts of
        [] \<Rightarrow> Inr \<lparr>dims = [0], elems = []\<rparr>
      | u # us \<Rightarrow>
          if \<forall>t \<in> set (u # us). dims t \<noteq> [] \<and> tl (dims t) = tl (dims u)
          then Inr \<lparr>dims = sum_list (map (\<lambda>t. hd (dims t)) (u # us)) # tl (dims u),
                    elems = concat (map elems (u # us))\<rparr>
          else Inl RuntimeError)"

definition tmap :: "('a \<Rightarrow> 'b) \<Rightarrow> 'a tensor \<Rightarrow> 'b tensor" where
  "tmap f t = \<lparr>dims = dims t, elems = map f (elems t)\<rparr>"

subsection \<open>Float32 values\<close>

text \<open>
  What \<open>combine\<close> computes is float32: the expert outputs are float32 tensors (the default
  floating type of torch, which \<open>stitched.float()\<close> leaves as it is) and \<open>torch.zeros\<close>
  makes a float32 accumulator. A float32 value is a finite number, an infinity or NaN; the
  two zeros are not told apart (they compare equal, and an accumulator that starts at +0
  never holds -0). An operation on finite values returns the exact result rounded to the
  nearest float32, ties to even (IEEE 754 binary32: 24 significant bits, exponents from
  -126 to 127, gradual underflow). \<open>f32_ulp r\<close> is the distance between the float32 values
  next to r; a rounded result larger than \<open>f32_max\<close> is an infinity, which happens from
  \<open>f32_max\<close> plus half a unit on; a result of magnitude at most \<open>2^-150\<close>, half the smallest
  positive float32, is zero. \<open>exp\<close> and \<open>log\<close> are taken to round in the same way.
\<close>

datatype f32 = Finite real | PosInf | NegInf | NaN

definition f32_max :: real where
  "f32_max = (2 - 1 / 2 ^ 23) * 2 ^ 127"

definition f32_ulp :: "real \<Rightarrow> real" where
  "f32_ulp r = 2 powr (of_int (max \<lfloor>log 2 \<bar>r\<bar>\<rfloor> (- 126)) - 23)"

definition round_half_even :: "real \<Rightarrow> int" where
  "round_half_even q =
     (if q - of_int \<lfloor>q\<rfloor> < 1 / 2 then \<lfloor>q\<rfloor>
      else if 1 / 2 < q - of_int \<lfloor>q\<rfloor> then \<lfloor>q\<rfloor> + 1
      else if even \<lfloor>q\<rfloor> then \<lfloor>q\<rfloor> else \<lfloor>q\<rfloor> + 1)"

definition f32_round :: "real \<Rightarrow> f32" where
  "f32_round r =
     (if r = 0 then Finite 0
      else let y = of_int (round_half_even (r / f32_ulp r)) * f32_ulp r in
        if f32_max < y then PosInf else if y < - f32_max then NegInf else Finite y)"

fun fadd :: "f32 \<Rightarrow> f32 \<Rightarrow> f32" where
  "fadd (Finite a) (Finite b) = f32_round (a + b)"
| "fadd NaN y = NaN"
| "fadd x NaN = NaN"
| "fadd PosInf NegInf = NaN"
| "fadd NegInf PosInf = NaN"
| "fadd PosInf y = PosInf"
| "fadd x PosInf = PosInf"
| "fadd NegInf y = NegInf"
| "fadd x NegInf = NegInf"

fun fmul :: "f32 \<Rightarrow> f32 \<Rightarrow> f32" where
  "fmul (Finite a) (Finite b) = f32_round (a * b)"
| "fmul NaN y = NaN"
| "fmul x NaN = NaN"
| "fmul PosInf (Finite b) = (if b = 0 then NaN else if 0 < b then PosInf else NegInf)"
| "fmul (Finite a) PosInf = (if a = 0 then NaN else if 0 < a then PosInf else NegInf)"
| "fmul NegInf (Finite b) = (if b = 0 then NaN else if 0 < b then NegInf else PosInf)"
| "fmul (Finite a) NegInf = (if a = 0 then NaN else if 0 < a then NegInf else PosInf)"
| "fmul PosInf PosInf = PosInf"
| "fmul NegInf NegInf = PosInf"
| "fmul PosInf NegInf = NegInf"
| "fmul NegInf PosInf = NegInf"

fun fexp :: "f32 \<Rightarrow> f32" where
  "fexp (Finite a) = f32_round (exp a)"
| "fexp PosInf = PosInf"
| "fexp NegInf = Finite 0"
| "fexp NaN = NaN"

fun flog :: "f32 \<Rightarrow> f32" where
  "flog (Finite a) = (if a < 0 then NaN else if a = 0 then NegInf else f32_round (ln a))"
| "flog PosInf = PosInf"
| "flog NegInf = NaN"
| "flog NaN = NaN"

subsection \<open>The operations of combine\<close>

definition torch_zeros :: "nat list \<Rightarrow> f32 tensor" where
  "torch_zeros ds = \<lparr>dims = ds, elems = replicate (prod_list ds) (Finite 0)\<rparr>"

text \<open>
  \<open>torch.einsum("ijkh,ik -> ijkh", st, g)\<close> for a second operand with one column, the only
  shape the dispatcher builds (\<open>nonzero_gates\<close> is \<open>[N, 1]\<close>): the first operand must have
  four dimensions, the label k broadcasts over the single column, and the label i
  broadcasts when one of the two sizes is 1. Slice i of the result is slice i of \<open>st\<close>
  times \<open>g[i, 0]\<close>, a float32 product.
\<close>

definition einsum_ijkh_ik :: "f32 tensor \<Rightarrow> real tensor \<Rightarrow> error + f32 tensor" where
  "einsum_ijkh_ik st g =
     (if length (dims st) \<noteq> 4 \<or> length (dims g) \<noteq> 2 \<or> dims g ! 1 \<noteq> 1 then Inl RuntimeError
      else let a = hd (dims st); n = hd (dims g) in
        if a \<noteq> n \<and> a \<noteq> 1 \<and> n \<noteq> 1 then Inl RuntimeError
        else let m = (if a = 1 then n else a) in
          Inr \<lparr>dims = m # tl (dims st),
               elems = concat (map (\<lambda>i. map (\<lambda>v. fmul v (Finite (elems g ! (if n = 1 then 0 else i))))
                                   (row st (if a = 1 then 0 else i))) [0..<m])\<rparr>)"

text \<open>
  \<open>self.index_add(0, idx, src)\<close>: slice j of \<open>src\<close> is added to slice \<open>idx[j]\<close> of a copy of
  \<open>self\<close>, for j = 0, 1, ... in turn, each sum a float32 sum.
\<close>

definition add_row :: "f32 list list \<Rightarrow> nat \<times> f32 list \<Rightarrow> f32 list list" where
  "add_row rs p = rs[fst p := map2 fadd (rs ! fst p) (snd p)]"

definition index_add0 :: "f32 tensor \<Rightarrow> nat list \<Rightarrow> f32 tensor \<Rightarrow> error + f32 tensor" where
  "index_add0 self idx src =
     (if dims self = [] \<or> dims src = [] then Inl RuntimeError
      else if length idx \<noteq> hd (dims src) then Inl RuntimeError
      else if tl (dims self) \<noteq> tl (dims src) then Inl RuntimeError
      else if \<exists>i \<in> set idx. hd (dims self) \<le> i then Inl IndexError
      else Inr \<lparr>dims = dims self,
                elems = concat (foldl add_row (rows_of self) (zip idx (rows_of src)))\<rparr>)"

text \<open>
  \<open>torch.gather(t, 1, idx)\<close> for a 2-D \<open>t\<close> and an index tensor with one column: entry j of
  the result is \<open>t[j, idx[j]]\<close>; the result has the shape of the index tensor.
\<close>

definition gather1 :: "'a tensor \<Rightarrow> nat list \<Rightarrow> error + 'a tensor" where
  "gather1 t idx =
     (if length (dims t) \<noteq> 2 \<or> hd (dims t) < length idx then Inl RuntimeError
      else if \<exists>e \<in> set idx. dims t ! 1 \<le> e then Inl RuntimeError
      else Inr \<lparr>dims = [length idx, 1], elems = map (\<lambda>j. at2 t j (idx ! j)) [0..<length idx]\<rparr>)"

section \<open>SparseDispatcher\<close>

text \<open>
  The fields set by \<open>__init__\<close>. \<open>expert_index\<close> is the single column of the \<open>[N, 1]\<close> tensor
  the source holds; \<open>batch_index\<close> is 1-D; \<open>nonzero_gates\<close> is \<open>[N, 1]\<close>.
\<close>

record SparseDispatcher =
  gates :: "real tensor"
  num_experts :: nat
  expert_index :: "nat list"
  batch_index :: "nat list"
  part_sizes :: "nat list"
  nonzero_gates :: "real tensor"

text \<open>
  \<open>__init__\<close>. \<open>torch.nonzero(gates).sort(0)\<close> sorts the two columns of the coordinate
  tensor separately; only the sorted column 1 (expert ids) and its index result are used.
  Unpacking \<open>sorted_experts.split(1, dim=1)\<close> into two names raises ValueError unless the
  coordinate tensor has two columns, that is unless \<open>gates\<close> is 2-D.
\<close>

definition init :: "(nat list \<Rightarrow> nat list) \<Rightarrow> nat \<Rightarrow> real tensor \<Rightarrow> error + SparseDispatcher" where
  "init srt n g =
     (if length (dims g) \<noteq> 2 then Inl ValueError
      else let nz = nonzero g;
               (sorted_experts, index_sorted_experts) = torch_sort srt (map snd nz) in
        ebind (index_list (map fst nz) index_sorted_experts) (\<lambda>bi.
        let ps = map (\<lambda>e. length (filter (\<lambda>i. at2 g i e > 0) [0..<dims g ! 0])) [0..<dims g ! 1] in
        ebind (index_select g bi) (\<lambda>gates_exp.
        ebind (gather1 gates_exp sorted_experts) (\<lambda>ng.
        Inr \<lparr>gates = g, num_experts = n, expert_index = sorted_experts,
             batch_index = bi, part_sizes = ps, nonzero_gates = ng\<rparr>))))"

definition dispatch :: "SparseDispatcher \<Rightarrow> 'a tensor \<Rightarrow> error + 'a tensor list" where
  "dispatch d inp =
     ebind (index_select inp (batch_index d)) (\<lambda>t.
     ebind (squeeze1 t) (\<lambda>inp_exp.
     torch_split inp_exp (part_sizes d)))"

text \<open>\<open>np.finfo(float).eps\<close>: the machine epsilon of a 64-bit float.\<close>

definition finfo_float_eps :: real where
  "finfo_float_eps = 1 / 2 ^ 52"

text \<open>
  \<open>combined[combined == 0] = eps\<close>, entry by entry: \<open>2^-52\<close> is a float32 value, so the
  assignment stores it unchanged; NaN and the infinities are not equal to zero.
\<close>

definition zero_to_eps :: "f32 \<Rightarrow> f32" where
  "zero_to_eps v = (if v = Finite 0 then Finite finfo_float_eps else v)"

text \<open>
  \<open>combine\<close>, in two parts: the accumulator \<open>combined\<close> as \<open>index_add\<close> leaves it, then
  the replacement of its zero entries and the logarithm. The expert outputs are float32
  tensors, on which \<open>stitched.float()\<close> is the identity.
\<close>

definition combined_sum :: "SparseDispatcher \<Rightarrow> f32 tensor list \<Rightarrow> bool \<Rightarrow> error + f32 tensor" where
  "combined_sum d expert_out multiply_by_gates =
     ebind (torch_cat expert_out) (\<lambda>c.
     ebind (if multiply_by_gates then einsum_ijkh_ik (tmap fexp c) (nonzero_gates d)
            else Inr (tmap fexp c)) (\<lambda>stitched.
     ebind (size_t (gates d) 0) (\<lambda>s0.
     ebind (size_t (last expert_out) 1) (\<lambda>s1.
     ebind (size_t (last expert_out) 2) (\<lambda>s2.
     ebind (size_t (last expert_out) 3) (\<lambda>s3.
     index_add0 (torch_zeros [s0, s1, s2, s3]) (batch_index d) stitched))))))"

definition combine :: "SparseDispatcher \<Rightarrow> f32 tensor list \<Rightarrow> bool \<Rightarrow> error + f32 tensor" where
  "combine d expert_out multiply_by_gates =
     ebind (combined_sum d expert_out multiply_by_gates) (\<lambda>combined.
     Inr (tmap flog (tmap zero_to_eps combined)))"

definition expert_to_gates :: "SparseDispatcher \<Rightarrow> error + real tensor list" where
  "expert_to_gates d = torch_split (nonzero_gates d) (part_sizes d)"

text \<open>The flat ordering of the assignments: the coordinate pairs in the order the sort leaves them.\<close>

definition flat_order :: "(nat list \<Rightarrow> nat list) \<Rightarrow> real tensor \<Rightarrow> (nat \<times> nat) list" where
  "flat_order srt g = map ((!) (nonzero g)) (srt (map snd (nonzero g)))"

definition dispatcher_of :: "(nat list \<Rightarrow> nat list) \<Rightarrow> nat \<Rightarrow> real tensor \<Rightarrow> SparseDispatcher" where
  "dispatcher_of srt n g =
     \<lparr>gates = g, num_experts = n,
      expert_index = map snd (flat_order srt g),
      batch_index = map fst (flat_order srt g),
      part_sizes = map (\<lambda>e. length (filter (\<lambda>i. at2 g i e > 0) [0..<dims g ! 0])) [0..<dims g ! 1],
      nonzero_gates = \<lparr>dims = [length (flat_order srt g), 1],
                       elems = map (\<lambda>(i, e). at2 g i e) (flat_order srt g)\<rparr>\<rparr>"

text \<open>The gate matrix of the scenario of the specification (B = 4, E = 2).\<close>

definition G_scenario :: "real tensor" where
  "G_scenario = \<lparr>dims = [4, 2], elems = [1, 0, 0, 1, 1, 1, 0, 0]\<rparr>"

text \<open>The sample ids of each expert's chunk: \<open>batch_index\<close> split by \<open>part_sizes\<close>.\<close>

definition chunk_samples :: "SparseDispatcher \<Rightarrow> nat list list" where
  "chunk_samples d = split_list (part_sizes d) (batch_index d)"

text \<open>The samples routed to expert e, in ascending order.\<close>

definition routed :: "real tensor \<Rightarrow> nat \<Rightarrow> nat list" where
  "routed g e = filter (\<lambda>i. 0 < at2 g i e) [0..<dims g ! 0]"

definition nonneg :: "real tensor \<Rightarrow> bool" where
  "nonneg g \<longleftrightarrow> (\<forall>v \<in> set (elems g). 0 \<le> v)"

text \<open>A small gate matrix: one sample and one expert.\<close>

definition G_one :: "real tensor" where
  "G_one = \<lparr>dims = [1, 1], elems = [1]\<rparr>"

text \<open>The position of the first occurrence of an element in a list.\<close>

fun index_of :: "'a \<Rightarrow> 'a list \<Rightarrow> nat" where
  "index_of x [] = 0"
| "index_of x (y # ys) = (if x = y then 0 else Suc (index_of x ys))"

text \<open>The position of sample b in expert e's chunk.\<close>

definition sample_position :: "SparseDispatcher \<Rightarrow> nat \<Rightarrow> nat \<Rightarrow> nat" where
  "sample_position d e b = index_of b (chunk_samples d ! e)"

text \<open>
  Expert outputs as \<open>combine\<close> expects them: one 4-D tensor per expert, with leading
  dimension \<open>part_sizes[e]\<close> and the same further dimensions \<open>d1, d2, d3\<close>.
\<close>

definition well_shaped :: "SparseDispatcher \<Rightarrow> 'a tensor list \<Rightarrow> nat \<Rightarrow> nat \<Rightarrow> nat \<Rightarrow> bool" where
  "well_shaped d outs d1 d2 d3 \<longleftrightarrow>
     list_all2 (\<lambda>t n. wf_tensor t \<and> dims t = [n, d1, d2, d3]) outs (part_sizes d)"

text \<open>The slices added by \<open>index_add\<close>: slice j of the exponentiated outputs times gate j.\<close>

definition scaled_rows :: "real list \<Rightarrow> f32 list list \<Rightarrow> f32 list list" where
  "scaled_rows gl rs = map (\<lambda>p. map (\<lambda>v. fmul (fexp v) (Finite (fst p))) (snd p)) (zip gl rs)"

text \<open>The experts sample b is routed to, in increasing order.\<close>

definition routed_experts :: "real tensor \<Rightarrow> nat \<Rightarrow> nat list" where
  "routed_experts g b = filter (\<lambda>e. 0 < at2 g b e) [0..<dims g ! 1]"

text \<open>
  What expert e adds to entry c of sample b: the exponential of its output at the
  position of b in its chunk, times the gate; and the float32 sum of such terms over a
  list of experts, taken from zero in the order of the list.
\<close>

definition contribution ::
  "SparseDispatcher \<Rightarrow> f32 tensor list \<Rightarrow> nat \<Rightarrow> nat \<Rightarrow> nat \<Rightarrow> f32" where
  "contribution d outs b c e =
     fmul (fexp (row (outs ! e) (sample_position d e b) ! c)) (Finite (at2 (gates d) b e))"

definition float_sum :: "f32 list \<Rightarrow> f32" where
  "float_sum vs = foldl fadd (Finite 0) vs"



text \<open>Expert outputs for the scenario: two \<open>[2, 1, 1, 1]\<close> tensors.\<close>

definition outs_scenario :: "f32 tensor list" where
  "outs_scenario = [\<lparr>dims = [2, 1, 1, 1], elems = [Finite 0, Finite 1]\<rparr>,
                    \<lparr>dims = [2, 1, 1, 1], elems = [Finite 2, Finite 3]\<rparr>]"

text \<open>A gate matrix with one sample and no expert.\<close>

definition G_no_expert :: "real tensor" where
  "G_no_expert = \<lparr>dims = [1, 0], elems = []\<rparr>"

text \<open>A gate matrix that routes its one sample to no expert.\<close>

definition G_zero :: "real tensor" where
  "G_zero = \<lparr>dims = [1, 1], elems = [0]\<rparr>"

text \<open>
  IEEE 754: the smallest positive values of binary32 (the type of the accumulator, the
  default of \<open>torch.zeros\<close>) and of binary64 (Python's \<open>float\<close>), subnormal and normal.
\<close>

definition float32_smallest_subnormal :: real where
  "float32_smallest_subnormal = 1 / 2 ^ 149"

definition float32_smallest_normal :: real where
  "float32_smallest_normal = 1 / 2 ^ 126"

definition float64_smallest_subnormal :: real where
  "float64_smallest_subnormal = 1 / 2 ^ 1074"

definition float64_smallest_normal :: real where
  "float64_smallest_normal = 1 / 2 ^ 1022"


definition G_second_of_two :: "real tensor" where
  "G_second_of_two = \<lparr>dims = [1, 2], elems = [0, 1]\<rparr>"

section \<open>The dispatcher as an object in a store\<close>

text \<open>
  For the effects: tensors and lists are objects in a store, an address is a position in
  it. A torch operation that returns a new tensor allocates; an in-place operation
  overwrites the object at an address; a view allocates nothing. A method is a function
  from the store to a result (or an error) and the new store.
\<close>

type_synonym addr = nat

datatype obj = Floats "real tensor" | Ints "nat list" | F32s "f32 tensor"

type_synonym heap = "obj list"

type_synonym 'a st = "heap \<Rightarrow> (error + 'a) \<times> heap"

definition sreturn :: "'a \<Rightarrow> 'a st" where
  "sreturn v h = (Inr v, h)"

definition sbind :: "'a st \<Rightarrow> ('a \<Rightarrow> 'b st) \<Rightarrow> 'b st" where
  "sbind m f h = (case m h of (Inl e, h') \<Rightarrow> (Inl e, h') | (Inr v, h') \<Rightarrow> f v h')"

definition lift :: "error + 'a \<Rightarrow> 'a st" where
  "lift r h = (r, h)"

definition new :: "obj \<Rightarrow> addr st" where
  "new v h = (Inr (length h), h @ [v])"

definition overwrite :: "addr \<Rightarrow> obj \<Rightarrow> unit st" where
  "overwrite a v h = (if a < length h then (Inr (), h[a := v]) else (Inl RuntimeError, h))"

definition read_obj :: "addr \<Rightarrow> obj st" where
  "read_obj a h = (if a < length h then (Inr (h ! a), h) else (Inl RuntimeError, h))"

definition read_floats :: "addr \<Rightarrow> real tensor st" where
  "read_floats a h =
     (if a < length h then (case h ! a of Floats t \<Rightarrow> (Inr t, h) | _ \<Rightarrow> (Inl TypeError, h))
      else (Inl RuntimeError, h))"

definition read_ints :: "addr \<Rightarrow> nat list st" where
  "read_ints a h =
     (if a < length h then (case h ! a of Ints xs \<Rightarrow> (Inr xs, h) | _ \<Rightarrow> (Inl TypeError, h))
      else (Inl RuntimeError, h))"

text \<open>
  A tensor read as a float32 tensor: a float32 tensor as it is, a tensor of finite values
  as these values; an index tensor is none.
\<close>

definition read_f32 :: "addr \<Rightarrow> f32 tensor st" where
  "read_f32 a h =
     (if a < length h
      then (case h ! a of F32s t \<Rightarrow> (Inr t, h) | Floats t \<Rightarrow> (Inr (tmap Finite t), h)
                        | Ints _ \<Rightarrow> (Inl TypeError, h))
      else (Inl RuntimeError, h))"

fun read_all :: "addr list \<Rightarrow> f32 tensor list st" where
  "read_all [] = sreturn []"
| "read_all (a # as) = sbind (read_f32 a) (\<lambda>t. sbind (read_all as) (\<lambda>ts. sreturn (t # ts)))"

text \<open>The attributes of a dispatcher object: references into the store, and \<open>_num_experts\<close>.\<close>

record dispatcher_refs =
  gates_ref :: addr
  expert_index_ref :: addr
  batch_index_ref :: addr
  part_sizes_ref :: addr
  nonzero_gates_ref :: addr
  num_experts_val :: nat

definition read_self :: "dispatcher_refs \<Rightarrow> SparseDispatcher st" where
  "read_self s =
     sbind (read_floats (gates_ref s)) (\<lambda>g.
     sbind (read_ints (expert_index_ref s)) (\<lambda>ei.
     sbind (read_ints (batch_index_ref s)) (\<lambda>bi.
     sbind (read_ints (part_sizes_ref s)) (\<lambda>ps.
     sbind (read_floats (nonzero_gates_ref s)) (\<lambda>ng.
     sreturn \<lparr>gates = g, num_experts = num_experts_val s, expert_index = ei,
              batch_index = bi, part_sizes = ps, nonzero_gates = ng\<rparr>)))))"

text \<open>
  \<open>__init__\<close>: \<open>self._gates\<close> is the caller's tensor itself; the other attributes are new
  objects (the temporaries of the constructor are left out).
\<close>

definition init_st :: "(nat list \<Rightarrow> nat list) \<Rightarrow> nat \<Rightarrow> addr \<Rightarrow> dispatcher_refs st" where
  "init_st srt n g_at =
     sbind (read_floats g_at) (\<lambda>g.
     sbind (lift (init srt n g)) (\<lambda>d.
     sbind (new (Ints (expert_index d))) (\<lambda>ei.
     sbind (new (Ints (batch_index d))) (\<lambda>bi.
     sbind (new (Ints (part_sizes d))) (\<lambda>ps.
     sbind (new (Floats (nonzero_gates d))) (\<lambda>ng.
     sreturn \<lparr>gates_ref = g_at, expert_index_ref = ei, batch_index_ref = bi,
              part_sizes_ref = ps, nonzero_gates_ref = ng, num_experts_val = n\<rparr>))))))"

text \<open>
  \<open>dispatch\<close>: \<open>inp[self._batch_index]\<close> is a new tensor; \<open>squeeze\<close> and \<open>split\<close> return views
  of it. The input is any tensor of the store (an index tensor is 1-D).
\<close>

definition dispatch_new :: "SparseDispatcher \<Rightarrow> 'a tensor \<Rightarrow> ('a tensor \<Rightarrow> obj) \<Rightarrow> obj list st" where
  "dispatch_new d x mk =
     sbind (lift (index_select x (batch_index d))) (\<lambda>t.
     sbind (new (mk t)) (\<lambda>a.
     sbind (lift (squeeze1 t)) (\<lambda>inp_exp.
     sbind (lift (torch_split inp_exp (part_sizes d))) (\<lambda>cs.
     sreturn (map mk cs)))))"

definition dispatch_st :: "dispatcher_refs \<Rightarrow> addr \<Rightarrow> obj list st" where
  "dispatch_st s inp =
     sbind (read_self s) (\<lambda>d.
     sbind (read_obj inp) (\<lambda>x.
     case x of
       Floats t \<Rightarrow> dispatch_new d t Floats
     | F32s t \<Rightarrow> dispatch_new d t F32s
     | Ints xs \<Rightarrow> dispatch_new d \<lparr>dims = [length xs], elems = xs\<rparr> (\<lambda>t. Ints (elems t))))"

text \<open>
  \<open>combine\<close>: \<open>cat\<close>, \<open>exp\<close>, \<open>einsum\<close>, \<open>zeros\<close>, \<open>index_add\<close> and \<open>log\<close> return new tensors;
  \<open>combined[combined == 0] = eps\<close> overwrites the tensor \<open>index_add\<close> returned.
\<close>

definition combine_st :: "dispatcher_refs \<Rightarrow> addr list \<Rightarrow> bool \<Rightarrow> f32 tensor st" where
  "combine_st s expert_out multiply_by_gates =
     sbind (read_self s) (\<lambda>d.
     sbind (read_all expert_out) (\<lambda>ts.
     sbind (lift (torch_cat ts)) (\<lambda>c.
     sbind (new (F32s c)) (\<lambda>_.
     sbind (new (F32s (tmap fexp c))) (\<lambda>_.
     sbind (if multiply_by_gates
            then sbind (lift (einsum_ijkh_ik (tmap fexp c) (nonzero_gates d))) (\<lambda>st.
                 sbind (new (F32s st)) (\<lambda>_. sreturn st))
            else sreturn (tmap fexp c)) (\<lambda>stitched.
     sbind (lift (size_t (gates d) 0)) (\<lambda>s0.
     sbind (lift (size_t (last ts) 1)) (\<lambda>s1.
     sbind (lift (size_t (last ts) 2)) (\<lambda>s2.
     sbind (lift (size_t (last ts) 3)) (\<lambda>s3.
     sbind (new (F32s (torch_zeros [s0, s1, s2, s3]))) (\<lambda>_.
     sbind (lift (index_add0 (torch_zeros [s0, s1, s2, s3]) (batch_index d) stitched)) (\<lambda>combined.
     sbind (new (F32s combined)) (\<lambda>a.
     sbind (overwrite a (F32s (tmap zero_to_eps combined))) (\<lambda>_.
     sbind (new (F32s (tmap flog (tmap zero_to_eps combined)))) (\<lambda>_.
     sreturn (tmap flog (tmap zero_to_eps combined)))))))))))))))))"

text \<open>\<open>expert_to_gates\<close>: views of \<open>self._nonzero_gates\<close>.\<close>

definition expert_to_gates_st :: "dispatcher_refs \<Rightarrow> real tensor list st" where
  "expert_to_gates_st s = sbind (read_self s) (\<lambda>d. lift (expert_to_gates d))"

text \<open>A sequence of calls on one dispatcher; a call that raises leaves the store as it is then.\<close>

datatype call = Dispatch addr | Combine "addr list" bool | ExpertToGates

fun exec :: "dispatcher_refs \<Rightarrow> call \<Rightarrow> heap \<Rightarrow> heap" where
  "exec s (Dispatch inp) h = snd (dispatch_st s inp h)"
| "exec s (Combine outs m) h = snd (combine_st s outs m h)"
| "exec s ExpertToGates h = snd (expert_to_gates_st s h)"

fun run :: "dispatcher_refs \<Rightarrow> call list \<Rightarrow> heap \<Rightarrow> heap" where
  "run s [] h = h"
| "run s (c # cs) h = run s cs (exec s c h)"

text \<open>
  \<open>frame n m Q\<close>: run from a store with at least n objects, m leaves the first n objects
  as they are, and a result it returns satisfies Q.
\<close>

definition frame :: "nat \<Rightarrow> 'a st \<Rightarrow> ('a \<Rightarrow> bool) \<Rightarrow> bool" where
  "frame n m Q \<longleftrightarrow> (\<forall>h. n \<le> length h \<longrightarrow>
     (case m h of (r, h') \<Rightarrow> n \<le> length h' \<and> take n h' = take n h
        \<and> (case r of Inl e \<Rightarrow> True | Inr v \<Rightarrow> Q v)))"

text \<open>A store holding the gate matrix and the expert outputs of the scenario, and some calls.\<close>

definition heap_scenario :: heap where
  "heap_scenario = [Floats G_scenario, F32s (outs_scenario ! 0), F32s (outs_scenario ! 1)]"

definition calls_scenario :: "call list" where
  "calls_scenario = [Dispatch 0, Combine [1, 2] True, ExpertToGates, Combine [2, 1] False]"

section \<open>Basic facts\<close>

lemma ebind_Inr [simp]: "ebind (Inr v) f = f v"
  by (simp add: ebind_def)

lemma ebind_Inl [simp]: "ebind (Inl e) f = Inl e"
  by (simp add: ebind_def)

lemma ebind_eq_Inr: "ebind m f = Inr r \<longleftrightarrow> (\<exists>v. m = Inr v \<and> f v = Inr r)"
  by (cases m) simp_all

lemma take_drop_concat_uniform:
  assumes "\<forall>r \<in> set rs. length r = n" "j < length rs"
  shows "take n (drop (j * n) (concat rs)) = rs ! j"
  using assms
proof (induction rs arbitrary: j)
  case Nil
  then show ?case by simp
next
  case (Cons r rs)
  show ?case
  proof (cases j)
    case 0
    with Cons.prems show ?thesis by simp
  next
    case (Suc k)
    with Cons show ?thesis by simp
  qed
qed

lemma length_concat_uniform:
  "\<forall>r \<in> set rs. length r = n \<Longrightarrow> length (concat rs) = length rs * n"
  by (induction rs) simp_all

lemma concat_take_drop_uniform:
  "length xs = m * n \<Longrightarrow> concat (map (\<lambda>i. take n (drop (i * n) xs)) [0..<m]) = xs"
proof (induction m arbitrary: xs rule: nat.induct)
  case zero
  then show ?case by simp
next
  case (Suc m)
  have "concat (map (\<lambda>i. take n (drop (i * n) xs)) [0..<Suc m])
      = concat (map (\<lambda>i. take n (drop (i * n) xs)) [0..<m]) @ take n (drop (m * n) xs)"
    by simp
  also have "concat (map (\<lambda>i. take n (drop (i * n) xs)) [0..<m])
      = concat (map (\<lambda>i. take n (drop (i * n) (take (m * n) xs))) [0..<m])"
  proof -
    have "\<And>i. i < m \<Longrightarrow> take n (drop (i * n) (take (m * n) xs)) = take n (drop (i * n) xs)"
    proof -
      fix i assume "i < m"
      then have "Suc i \<le> m" by simp
      then have "Suc i * n \<le> m * n" by (rule mult_le_mono1)
      then have "n \<le> m * n - i * n" by simp
      then show "take n (drop (i * n) (take (m * n) xs)) = take n (drop (i * n) xs)"
        by (simp add: drop_take min_def)
    qed
    then show ?thesis by (intro arg_cong[where f=concat] map_cong) auto
  qed
  also have "\<dots> = take (m * n) xs"
    using Suc.prems by (intro Suc.IH) simp
  finally show ?case using Suc.prems by simp
qed

lemma wf_tensor_length:
  "wf_tensor t \<Longrightarrow> dims t \<noteq> [] \<Longrightarrow> length (elems t) = hd (dims t) * rowsize t"
  by (cases "dims t") (simp_all add: wf_tensor_def rowsize_def)

lemma length_row:
  assumes "wf_tensor t" "dims t \<noteq> []" "i < hd (dims t)"
  shows "length (row t i) = rowsize t"
proof -
  have "Suc i * rowsize t \<le> hd (dims t) * rowsize t"
    using assms(3) by (intro mult_le_mono1) simp
  then show ?thesis
    using wf_tensor_length[OF assms(1,2)] by (simp add: row_def)
qed

lemma row_nth:
  assumes "wf_tensor t" "dims t \<noteq> []" "i < hd (dims t)" "c < rowsize t"
  shows "row t i ! c = elems t ! (i * rowsize t + c)"
proof -
  have "i * rowsize t \<le> hd (dims t) * rowsize t"
    using assms(3) by (intro mult_le_mono1) simp
  then have "i * rowsize t \<le> length (elems t)"
    using wf_tensor_length[OF assms(1,2)] by simp
  then show ?thesis using assms(4) by (simp add: row_def)
qed

lemma length_rows_of [simp]: "length (rows_of t) = hd (dims t)"
  by (simp add: rows_of_def)

lemma rows_of_nth: "i < hd (dims t) \<Longrightarrow> rows_of t ! i = row t i"
  by (simp add: rows_of_def)

lemma concat_rows_of:
  "wf_tensor t \<Longrightarrow> dims t \<noteq> [] \<Longrightarrow> concat (rows_of t) = elems t"
  unfolding rows_of_def row_def
  by (rule concat_take_drop_uniform) (rule wf_tensor_length)

lemma rows_of_uniform:
  "wf_tensor t \<Longrightarrow> dims t \<noteq> [] \<Longrightarrow> \<forall>r \<in> set (rows_of t). length r = rowsize t"
  by (auto simp: rows_of_def length_row)

lemma at2_row:
  "wf_tensor g \<Longrightarrow> dims g = [B, E] \<Longrightarrow> i < B \<Longrightarrow> e < E \<Longrightarrow> at2 g i e = row g i ! e"
  by (simp add: at2_def row_nth rowsize_def)

lemma nonzero_bounds:
  "dims g = [B, E] \<Longrightarrow> (i, e) \<in> set (nonzero g) \<Longrightarrow> i < B \<and> e < E \<and> at2 g i e \<noteq> 0"
  by (auto simp: nonzero_def)

lemma distinct_nonzero: "distinct (nonzero g)"
  by (simp add: nonzero_def distinct_product)

lemma argsorts_set:
  "argsorts srt ks \<Longrightarrow> set (srt ks) = {0..<length ks}"
  by (metis argsorts_def set_sort set_upt)

lemma argsorts_mset:
  "argsorts srt ks \<Longrightarrow> mset (srt ks) = mset [0..<length ks]"
  by (metis argsorts_def mset_sort)

lemma argsorts_length:
  "argsorts srt ks \<Longrightarrow> length (srt ks) = length ks"
  by (metis argsorts_def length_sort length_upt diff_zero)

lemma mset_flat_order:
  assumes "argsorts srt (map snd (nonzero g))"
  shows "mset (flat_order srt g) = mset (nonzero g)"
proof -
  have "mset (srt (map snd (nonzero g))) = mset [0..<length (nonzero g)]"
    using argsorts_mset[OF assms] by simp
  then have "mset (map ((!) (nonzero g)) (srt (map snd (nonzero g))))
      = mset (map ((!) (nonzero g)) [0..<length (nonzero g)])"
    by (metis mset_map)
  then show ?thesis by (simp add: flat_order_def map_nth)
qed

lemma set_flat_order:
  "argsorts srt (map snd (nonzero g)) \<Longrightarrow> set (flat_order srt g) = set (nonzero g)"
  by (metis mset_flat_order set_mset_mset)

lemma distinct_flat_order:
  "argsorts srt (map snd (nonzero g)) \<Longrightarrow> distinct (flat_order srt g)"
  by (metis mset_flat_order distinct_nonzero mset_eq_imp_distinct_iff)

lemma length_flat_order:
  "argsorts srt (map snd (nonzero g)) \<Longrightarrow> length (flat_order srt g) = length (nonzero g)"
  by (metis mset_flat_order size_mset)

lemma map_snd_flat_order:
  assumes "argsorts srt (map snd (nonzero g))"
  shows "map snd (flat_order srt g) = map ((!) (map snd (nonzero g))) (srt (map snd (nonzero g)))"
  using argsorts_set[OF assms] by (simp add: flat_order_def)

lemma sorted_flat_order:
  "argsorts srt (map snd (nonzero g)) \<Longrightarrow> sorted (map snd (flat_order srt g))"
  by (simp add: map_snd_flat_order) (simp add: argsorts_def)

lemma init_ok:
  assumes g: "dims g = [B, E]" "wf_tensor g"
    and srt: "argsorts srt (map snd (nonzero g))"
  shows "init srt n g = Inr (dispatcher_of srt n g)"
proof -
  let ?nz = "nonzero g"
  let ?p = "srt (map snd ?nz)"
  let ?fl = "flat_order srt g"
  have pset: "set ?p = {0..<length ?nz}"
    using argsorts_set[OF srt] by simp
  have bi: "index_list (map fst ?nz) ?p = Inr (map fst ?fl)"
    using pset by (simp add: index_list_def flat_order_def)
  have se: "map ((!) (map snd ?nz)) ?p = map snd ?fl"
    using map_snd_flat_order[OF srt] by simp
  have fl_fst: "\<And>p. p \<in> set ?fl \<Longrightarrow> fst p < B"
    and fl_snd: "\<And>p. p \<in> set ?fl \<Longrightarrow> snd p < E"
    using nonzero_bounds[OF g(1)] set_flat_order[OF srt] by auto
  have sel: "index_select g (map fst ?fl)
      = Inr \<lparr>dims = [length ?fl, E], elems = concat (map (row g) (map fst ?fl))\<rparr>"
    using g(1) fl_fst by (fastforce simp: index_select_def)
  let ?ge = "\<lparr>dims = [length ?fl, E], elems = concat (map (row g) (map fst ?fl))\<rparr>"
  have rows_len: "\<forall>r \<in> set (map (row g) (map fst ?fl)). length r = E"
  proof -
    have "\<And>p. p \<in> set ?fl \<Longrightarrow> length (row g (fst p)) = E"
      using length_row[OF g(2)] g(1) fl_fst by (simp add: rowsize_def)
    then show ?thesis by auto
  qed
  have at_ge: "at2 ?ge j e = at2 g (fst (?fl ! j)) e" if "j < length ?fl" "e < E" for j e
  proof -
    have "length (concat (map (row g) (map fst ?fl))) = length ?fl * E"
      using length_concat_uniform[OF rows_len] by simp
    moreover have "j * E \<le> length ?fl * E"
      using that(1) by (intro mult_le_mono1) simp
    ultimately have "j * E \<le> length (concat (map (row g) (map fst ?fl)))"
      by simp
    then have "at2 ?ge j e = take E (drop (j * E) (concat (map (row g) (map fst ?fl)))) ! e"
      using that by (simp add: at2_def)
    also have "\<dots> = row g (fst (?fl ! j)) ! e"
      using that by (subst take_drop_concat_uniform[OF rows_len]) simp_all
    finally show ?thesis using g that fl_fst[of "?fl ! j"] by (simp add: at2_row)
  qed
  have ga: "gather1 ?ge (map snd ?fl)
      = Inr \<lparr>dims = [length ?fl, 1], elems = map (\<lambda>(i, e). at2 g i e) ?fl\<rparr>"
  proof -
    have "map (\<lambda>j. at2 ?ge j (map snd ?fl ! j)) [0..<length ?fl] = map (\<lambda>(i, e). at2 g i e) ?fl"
    proof (rule nth_equalityI)
      fix j assume "j < length (map (\<lambda>j. at2 ?ge j (map snd ?fl ! j)) [0..<length ?fl])"
      then have j: "j < length ?fl" by simp
      then have "snd (?fl ! j) < E"
        using fl_snd[of "?fl ! j"] by simp
      with j show "map (\<lambda>j. at2 ?ge j (map snd ?fl ! j)) [0..<length ?fl] ! j
          = map (\<lambda>(i, e). at2 g i e) ?fl ! j"
        by (simp add: at_ge case_prod_unfold del: map_map)
    qed simp
    moreover have "\<not> (\<exists>e \<in> set (map snd ?fl). E \<le> e)"
      using fl_snd by fastforce
    ultimately show ?thesis by (simp add: gather1_def del: map_map)
  qed
  show ?thesis
    using g(1) by (simp add: init_def torch_sort_def Let_def se bi sel ga dispatcher_of_def del: map_map)
qed

lemma length_filter_upt_card:
  "length (filter Q [0..<B]) = card {i. i < B \<and> Q i}"
proof -
  have "{i. i < length [0..<B] \<and> Q ([0..<B] ! i)} = {i. i < B \<and> Q i}"
    by auto
  then show ?thesis
    by (simp add: length_filter_conv_card)
qed

lemma sum_card_columns:
  "(\<Sum>e = 0..<E. card {i. i < (B::nat) \<and> Q i e}) = card {(i, e). i < B \<and> e < E \<and> Q i (e::nat)}"
proof -
  let ?S = "SIGMA e:{0..<E}. {i. i < B \<and> Q i e}"
  have "(\<Sum>e = 0..<E. card {i. i < B \<and> Q i e}) = card ?S"
    by (subst card_SigmaI) auto
  also have "\<dots> = card ((\<lambda>(e, i). (i, e)) ` ?S)"
    by (rule card_image[symmetric]) (auto simp: inj_on_def)
  also have "(\<lambda>(e, i). (i, e)) ` ?S = {(i, e). i < B \<and> e < E \<and> Q i e}"
    by (auto simp: image_iff)
  finally show ?thesis .
qed

lemma part_sizes_dispatcher_of:
  assumes "dims g = [B, E]"
  shows "part_sizes (dispatcher_of srt n g)
      = map (\<lambda>e. card {i. i < B \<and> 0 < at2 g i e}) [0..<E]"
  using assms by (simp add: dispatcher_of_def length_filter_upt_card)

section \<open>C3: partition sizes\<close>

text \<open>
  C3. For a gate matrix of shape \<open>[B, E]\<close> the constructor succeeds, \<open>part_sizes\<close> has
  length E, \<open>part_sizes[e]\<close> is the number of samples i with \<open>G[i, e] > 0\<close>, and the sizes
  add up to the number of strictly positive entries of G.
\<close>

theorem part_sizes_count:
  assumes "dims g = [B, E]" "wf_tensor g" "argsorts srt (map snd (nonzero g))"
  shows "\<exists>d. init srt n g = Inr d \<and> length (part_sizes d) = E
    \<and> (\<forall>e < E. part_sizes d ! e = card {i. i < B \<and> 0 < at2 g i e})
    \<and> sum_list (part_sizes d) = card {(i, e). i < B \<and> e < E \<and> 0 < at2 g i e}"
proof -
  let ?d = "dispatcher_of srt n g"
  have ps: "part_sizes ?d = map (\<lambda>e. card {i. i < B \<and> 0 < at2 g i e}) [0..<E]"
    by (rule part_sizes_dispatcher_of[OF assms(1)])
  have "sum_list (part_sizes ?d) = (\<Sum>e = 0..<E. card {i. i < B \<and> 0 < at2 g i e})"
    unfolding ps by (simp add: interv_sum_list_conv_sum_set_nat)
  also have "\<dots> = card {(i, e). i < B \<and> e < E \<and> 0 < at2 g i e}"
    by (rule sum_card_columns)
  finally have "sum_list (part_sizes ?d) = card {(i, e). i < B \<and> e < E \<and> 0 < at2 g i e}" .
  moreover have "length (part_sizes ?d) = E"
    unfolding ps by simp
  moreover have "\<forall>e < E. part_sizes ?d ! e = card {i. i < B \<and> 0 < at2 g i e}"
    unfolding ps by simp
  ultimately show ?thesis
    using init_ok[OF assms] by blast
qed

text \<open>The stable sorting permutation meets the contract of torch.sort.\<close>

lemma argsorts_stable_argsort: "argsorts stable_argsort ks"
proof -
  have "mset (stable_argsort ks) = mset [0..<length ks]"
    by (simp add: stable_argsort_def del: mset_upt)
  then have "sort (stable_argsort ks) = sort [0..<length ks]"
    by (metis properties_for_sort sorted_sort mset_sort)
  then have "sort (stable_argsort ks) = [0..<length ks]"
    by (simp add: sorted_sort_id)
  moreover have "sorted (map ((!) ks) (stable_argsort ks))"
    by (simp add: stable_argsort_def sorted_sort_key)
  ultimately show ?thesis by (simp add: argsorts_def)
qed

theorem part_sizes_count_witness:
  "\<exists>d. init stable_argsort 2 G_scenario = Inr d \<and> length (part_sizes d) = 2
    \<and> (\<forall>e < 2. part_sizes d ! e = card {i. i < 4 \<and> 0 < at2 G_scenario i e})
    \<and> sum_list (part_sizes d) = card {(i, e). i < 4 \<and> e < 2 \<and> 0 < at2 G_scenario i e}"
  using part_sizes_count[of G_scenario 4 2 stable_argsort 2] argsorts_stable_argsort
  by (simp add: G_scenario_def wf_tensor_def)

section \<open>The flat ordering and the chunks\<close>

subsection \<open>Splitting a list sorted by key\<close>

lemma filter_ge_sorted:
  "sorted (map f xs) \<Longrightarrow>
   filter (\<lambda>x. k \<le> f x) xs = filter (\<lambda>x. f x = k) xs @ filter (\<lambda>x. k < f x) xs"
proof (induction xs)
  case Nil
  then show ?case by simp
next
  case (Cons x xs)
  then have ih: "filter (\<lambda>x. k \<le> f x) xs = filter (\<lambda>x. f x = k) xs @ filter (\<lambda>x. k < f x) xs"
    and le: "\<forall>y \<in> set xs. f x \<le> f y"
    by simp_all
  consider "f x < k" | "f x = k" | "k < f x" using less_linear by blast
  then show ?case
  proof cases
    case 1
    then have "\<not> k \<le> f x" "f x \<noteq> k" "\<not> k < f x" by auto
    then show ?thesis by (simp add: ih)
  next
    case 2
    then show ?thesis by (simp add: ih)
  next
    case 3
    then have "\<forall>y \<in> set xs. k < f y" using le by fastforce
    then have "filter (\<lambda>x. f x = k) xs = []" "filter (\<lambda>x. k \<le> f x) xs = xs"
      "filter (\<lambda>x. k < f x) xs = xs"
      by (auto simp: filter_empty_conv filter_id_conv less_imp_le)
    moreover have "k \<le> f x" "f x \<noteq> k" using 3 by auto
    ultimately show ?thesis using 3 by simp
  qed
qed

lemma split_list_sorted_from:
  fixes f :: "'a \<Rightarrow> nat"
  assumes "sorted (map f xs)"
  shows "split_list (map (\<lambda>e. length (filter (\<lambda>x. f x = e) xs)) [k..<E]) (filter (\<lambda>x. k \<le> f x) xs)
       = map (\<lambda>e. filter (\<lambda>x. f x = e) xs) [k..<E]"
proof (induction "E - k" arbitrary: k)
  case 0
  then show ?case by simp
next
  case (Suc m)
  then have k: "k < E" by simp
  have dec: "filter (\<lambda>x. k \<le> f x) xs = filter (\<lambda>x. f x = k) xs @ filter (\<lambda>x. Suc k \<le> f x) xs"
    using filter_ge_sorted[OF assms, of k] by (simp add: Suc_le_eq)
  have "m = E - Suc k" using Suc.hyps(2) by simp
  from Suc.hyps(1)[OF this] show ?case
    using k by (simp add: upt_conv_Cons dec)
qed

lemma split_list_sorted:
  fixes f :: "'a \<Rightarrow> nat"
  assumes "sorted (map f xs)"
  shows "split_list (map (\<lambda>e. length (filter (\<lambda>x. f x = e) xs)) [0..<E]) xs
       = map (\<lambda>e. filter (\<lambda>x. f x = e) xs) [0..<E]"
  using split_list_sorted_from[OF assms, of 0 E] by simp

lemma split_list_map:
  "split_list ns (map f xs) = map (map f) (split_list ns xs)"
  by (induction ns arbitrary: xs) (simp_all add: take_map drop_map)

lemma length_split_list [simp]: "length (split_list ns xs) = length ns"
  by (induction ns arbitrary: xs) simp_all

lemma sum_list_delta_upt:
  "sum_list (map (\<lambda>e. if a = e then 1 else 0) [0..<E]) = (if a < E then 1 else (0::nat))"
  by (induction E) auto

lemma sum_length_filter_keys:
  fixes f :: "'a \<Rightarrow> nat"
  assumes "\<forall>x \<in> set xs. f x < E"
  shows "sum_list (map (\<lambda>e. length (filter (\<lambda>x. f x = e) xs)) [0..<E]) = length xs"
  using assms
proof (induction xs)
  case Nil
  then show ?case by simp
next
  case (Cons x xs)
  have "sum_list (map (\<lambda>e. length (filter (\<lambda>x. f x = e) (x # xs))) [0..<E])
      = sum_list (map (\<lambda>e. (if f x = e then 1 else 0) + length (filter (\<lambda>x. f x = e) xs)) [0..<E])"
    by (intro arg_cong[where f=sum_list] map_cong) auto
  also have "\<dots> = sum_list (map (\<lambda>e. if f x = e then 1 else 0) [0..<E])
      + sum_list (map (\<lambda>e. length (filter (\<lambda>x. f x = e) xs)) [0..<E])"
    by (simp add: sum_list_addf)
  finally show ?case
    using Cons by (simp add: sum_list_delta_upt)
qed

subsection \<open>The coordinate list, column by column\<close>

lemma filter_eq_upt: "e < E \<Longrightarrow> filter (\<lambda>y. y = e) [0..<E] = [e]"
  by (induction E) (auto simp: less_Suc_eq filter_empty_conv)

lemma filter_snd_product:
  "e < E \<Longrightarrow> filter (\<lambda>p. snd p = e) (List.product xs [0..<E]) = map (\<lambda>i. (i, e)) xs"
  by (induction xs) (simp_all add: filter_map comp_def filter_eq_upt)

lemma filter_snd_nonzero:
  assumes "dims g = [B, E]" "e < E"
  shows "filter (\<lambda>p. snd p = e) (nonzero g) = map (\<lambda>i. (i, e)) (filter (\<lambda>i. at2 g i e \<noteq> 0) [0..<B])"
proof -
  have "filter (\<lambda>p. snd p = e) (nonzero g)
      = filter (\<lambda>(i, e). at2 g i e \<noteq> 0) (filter (\<lambda>p. snd p = e) (List.product [0..<B] [0..<E]))"
    using assms(1) by (simp add: nonzero_def conj_commute)
  also have "\<dots> = filter (\<lambda>(i, e). at2 g i e \<noteq> 0) (map (\<lambda>i. (i, e)) [0..<B])"
    by (simp add: filter_snd_product[OF assms(2)])
  also have "\<dots> = map (\<lambda>i. (i, e)) (filter (\<lambda>i. at2 g i e \<noteq> 0) [0..<B])"
    by (simp add: filter_map comp_def)
  finally show ?thesis .
qed

lemma nonneg_at2:
  assumes "nonneg g" "wf_tensor g" "dims g = [B, E]" "i < B" "e < E"
  shows "0 \<le> at2 g i e"
proof -
  have "i * E + e < Suc i * E" using assms(5) by simp
  also have "\<dots> \<le> B * E" using assms(4) by (intro mult_le_mono1) simp
  finally have "i * E + e < length (elems g)"
    using assms(2,3) by (simp add: wf_tensor_def)
  then show ?thesis
    using assms(1,3) by (simp add: nonneg_def at2_def)
qed

lemma routed_nonzero:
  assumes "nonneg g" "wf_tensor g" "dims g = [B, E]" "e < E"
  shows "filter (\<lambda>i. at2 g i e \<noteq> 0) [0..<B] = routed g e"
proof -
  have "\<And>i. i < B \<Longrightarrow> at2 g i e \<noteq> 0 \<longleftrightarrow> 0 < at2 g i e"
    using nonneg_at2[OF assms(1-3) _ assms(4)] by fastforce
  then show ?thesis
    using assms(3) by (auto simp: routed_def intro: filter_cong)
qed

subsection \<open>Rows of concatenated slices\<close>

lemma take_concat_uniform:
  "\<forall>r \<in> set rs. length r = n \<Longrightarrow> take (k * n) (concat rs) = concat (take k rs)"
proof (induction rs arbitrary: k)
  case Nil
  then show ?case by simp
next
  case (Cons r rs)
  then show ?case by (cases k) simp_all
qed

lemma drop_concat_uniform:
  "\<forall>r \<in> set rs. length r = n \<Longrightarrow> drop (k * n) (concat rs) = concat (drop k rs)"
proof (induction rs arbitrary: k)
  case Nil
  then show ?case by simp
next
  case (Cons r rs)
  then show ?case by (cases k) simp_all
qed

lemma split_elems_concat:
  "\<forall>r \<in> set rs. length r = n \<Longrightarrow> split_elems n ns (concat rs) = map concat (split_list ns rs)"
proof (induction ns arbitrary: rs)
  case Nil
  then show ?case by simp
next
  case (Cons k ns)
  have "\<forall>r \<in> set (drop k rs). length r = n"
    using Cons.prems by (meson in_set_dropD)
  then show ?case
    using Cons.prems by (simp add: take_concat_uniform drop_concat_uniform Cons.IH)
qed

lemma rows_of_concat:
  assumes "\<forall>r \<in> set rs. length r = prod_list ds"
  shows "rows_of \<lparr>dims = length rs # ds, elems = concat rs\<rparr> = rs"
proof (rule nth_equalityI)
  show "length (rows_of \<lparr>dims = length rs # ds, elems = concat rs\<rparr>) = length rs"
    by simp
next
  fix i assume "i < length (rows_of \<lparr>dims = length rs # ds, elems = concat rs\<rparr>)"
  then have "i < length rs" by simp
  then show "rows_of \<lparr>dims = length rs # ds, elems = concat rs\<rparr> ! i = rs ! i"
    using take_drop_concat_uniform[OF assms] by (simp add: rows_of_nth row_def rowsize_def)
qed

lemma wf_concat_rows:
  "\<forall>r \<in> set rs. length r = prod_list ds \<Longrightarrow> wf_tensor \<lparr>dims = length rs # ds, elems = concat rs\<rparr>"
  by (simp add: wf_tensor_def length_concat_uniform)

subsection \<open>The flat ordering, expert by expert\<close>

lemma length_filter_flat_order:
  assumes "argsorts srt (map snd (nonzero g))"
  shows "length (filter P (flat_order srt g)) = length (filter P (nonzero g))"
proof -
  have "mset (filter P (flat_order srt g)) = mset (filter P (nonzero g))"
    using mset_flat_order[OF assms] by simp
  then show ?thesis by (metis size_mset)
qed

lemma part_sizes_flat_order:
  assumes g: "dims g = [B, E]" "wf_tensor g" "nonneg g"
    and srt: "argsorts srt (map snd (nonzero g))"
  shows "part_sizes (dispatcher_of srt n g)
       = map (\<lambda>e. length (filter (\<lambda>p. snd p = e) (flat_order srt g))) [0..<E]"
proof -
  have "length (filter (\<lambda>p. snd p = e) (flat_order srt g)) = length (filter (\<lambda>i. 0 < at2 g i e) [0..<B])"
    if "e < E" for e
    using that length_filter_flat_order[OF srt] filter_snd_nonzero[OF g(1) that]
      routed_nonzero[OF g(3,2,1) that] g(1)
    by (simp add: routed_def)
  then show ?thesis
    using g(1) by (simp add: dispatcher_of_def)
qed

lemma snd_flat_order_less:
  assumes "dims g = [B, E]" "argsorts srt (map snd (nonzero g))"
  shows "\<forall>p \<in> set (flat_order srt g). snd p < E"
  using nonzero_bounds[OF assms(1)] set_flat_order[OF assms(2)] by auto

lemma fst_flat_order_less:
  assumes "dims g = [B, E]" "argsorts srt (map snd (nonzero g))"
  shows "\<forall>p \<in> set (flat_order srt g). fst p < B"
  using nonzero_bounds[OF assms(1)] set_flat_order[OF assms(2)] by auto

lemma sum_part_sizes:
  assumes g: "dims g = [B, E]" "wf_tensor g" "nonneg g"
    and srt: "argsorts srt (map snd (nonzero g))"
  shows "sum_list (part_sizes (dispatcher_of srt n g)) = length (flat_order srt g)"
  unfolding part_sizes_flat_order[OF assms]
  by (rule sum_length_filter_keys) (rule snd_flat_order_less[OF g(1) srt])

lemma chunk_samples_flat_order:
  assumes g: "dims g = [B, E]" "wf_tensor g" "nonneg g"
    and srt: "argsorts srt (map snd (nonzero g))"
  shows "chunk_samples (dispatcher_of srt n g)
       = map (\<lambda>e. map fst (filter (\<lambda>p. snd p = e) (flat_order srt g))) [0..<E]"
proof -
  have "chunk_samples (dispatcher_of srt n g)
      = map (map fst) (split_list (part_sizes (dispatcher_of srt n g)) (flat_order srt g))"
    by (simp add: chunk_samples_def dispatcher_of_def split_list_map)
  also have "\<dots> = map (map fst) (map (\<lambda>e. filter (\<lambda>p. snd p = e) (flat_order srt g)) [0..<E])"
    unfolding part_sizes_flat_order[OF assms]
    by (simp only: split_list_sorted[OF sorted_flat_order[OF srt]])
  finally show ?thesis by simp
qed

lemma chunk_samples_mset:
  assumes g: "dims g = [B, E]" "wf_tensor g" "nonneg g"
    and srt: "argsorts srt (map snd (nonzero g))" and e: "e < E"
  shows "mset (chunk_samples (dispatcher_of srt n g) ! e) = mset (routed g e)"
proof -
  let ?P = "\<lambda>p::nat \<times> nat. snd p = e"
  have "filter_mset ?P (mset (flat_order srt g)) = filter_mset ?P (mset (nonzero g))"
    by (simp only: mset_flat_order[OF srt])
  then have "mset (filter ?P (flat_order srt g)) = mset (filter ?P (nonzero g))"
    by (simp only: mset_filter)
  then have "image_mset fst (mset (filter ?P (flat_order srt g)))
      = image_mset fst (mset (filter ?P (nonzero g)))"
    by (rule arg_cong)
  then have "mset (map fst (filter ?P (flat_order srt g))) = mset (map fst (filter ?P (nonzero g)))"
    by (simp only: mset_map)
  also have "map fst (filter ?P (nonzero g)) = routed g e"
    using filter_snd_nonzero[OF g(1) e] routed_nonzero[OF g(3,2,1) e] by (simp add: comp_def)
  finally have "mset (map fst (filter ?P (flat_order srt g))) = mset (routed g e)" .
  moreover have "chunk_samples (dispatcher_of srt n g) ! e = map fst (filter ?P (flat_order srt g))"
    using e by (simp add: chunk_samples_flat_order[OF assms(1-4)])
  ultimately show ?thesis by simp
qed

lemma distinct_routed: "distinct (routed g e)"
  by (simp add: routed_def)

lemma chunk_samples_distinct:
  assumes "dims g = [B, E]" "wf_tensor g" "nonneg g"
    "argsorts srt (map snd (nonzero g))" "e < E"
  shows "distinct (chunk_samples (dispatcher_of srt n g) ! e)"
  using chunk_samples_mset[OF assms] distinct_routed by (metis mset_eq_imp_distinct_iff)

lemma chunk_samples_set:
  assumes "dims g = [B, E]" "wf_tensor g" "nonneg g"
    "argsorts srt (map snd (nonzero g))" "e < E"
  shows "set (chunk_samples (dispatcher_of srt n g) ! e) = {i. i < B \<and> 0 < at2 g i e}"
proof -
  have "set (chunk_samples (dispatcher_of srt n g) ! e) = set (routed g e)"
    using chunk_samples_mset[OF assms] by (metis set_mset_mset)
  then show ?thesis using assms(1) by (auto simp: routed_def)
qed

lemma length_chunk_samples:
  assumes "dims g = [B, E]" "wf_tensor g" "nonneg g"
    "argsorts srt (map snd (nonzero g))"
  shows "length (chunk_samples (dispatcher_of srt n g)) = E"
  by (simp add: chunk_samples_flat_order[OF assms])

lemma length_chunk_samples_nth:
  assumes "dims g = [B, E]" "wf_tensor g" "nonneg g"
    "argsorts srt (map snd (nonzero g))" "e < E"
  shows "length (chunk_samples (dispatcher_of srt n g) ! e) = part_sizes (dispatcher_of srt n g) ! e"
  using assms(5) by (simp add: chunk_samples_flat_order[OF assms(1-4)] part_sizes_flat_order[OF assms(1-4)])

text \<open>With a stable sort each chunk lists its samples in ascending order.\<close>

lemma chunk_samples_stable:
  assumes g: "dims g = [B, E]" "wf_tensor g" "nonneg g"
    and st: "srt (map snd (nonzero g)) = stable_argsort (map snd (nonzero g))" and e: "e < E"
  shows "chunk_samples (dispatcher_of srt n g) ! e = routed g e"
proof -
  let ?nz = "nonzero g"
  let ?ks = "map snd ?nz"
  have srt: "argsorts srt ?ks"
    using argsorts_stable_argsort[of ?ks] st by (simp add: argsorts_def)
  have p: "srt ?ks = sort_key ((!) ?ks) [0..<length ?nz]"
    using st by (simp add: stable_argsort_def)
  have "filter (\<lambda>p. snd p = e) (flat_order srt g)
      = map ((!) ?nz) (filter (\<lambda>i. snd (?nz ! i) = e) (srt ?ks))"
    by (simp add: flat_order_def filter_map comp_def)
  also have "filter (\<lambda>i. snd (?nz ! i) = e) (srt ?ks) = filter (\<lambda>i. ?ks ! i = e) (srt ?ks)"
    using argsorts_set[OF srt] by (intro filter_cong) auto
  also have "\<dots> = filter (\<lambda>i. ?ks ! i = e) [0..<length ?nz]"
    unfolding p by (rule sort_key_stable)
  also have "\<dots> = filter (\<lambda>i. snd (?nz ! i) = e) [0..<length ?nz]"
    by (intro filter_cong) auto
  also have "map ((!) ?nz) \<dots> = filter (\<lambda>p. snd p = e) (map ((!) ?nz) [0..<length ?nz])"
    by (simp add: filter_map comp_def)
  also have "\<dots> = filter (\<lambda>p. snd p = e) ?nz"
    by (simp add: map_nth)
  finally have "map fst (filter (\<lambda>p. snd p = e) (flat_order srt g)) = routed g e"
    using filter_snd_nonzero[OF g(1) e] routed_nonzero[OF g(3,2,1) e] by (simp add: comp_def)
  then show ?thesis
    using e by (simp add: chunk_samples_flat_order[OF g srt])
qed

subsection \<open>dispatch\<close>

lemma dispatch_chunks:
  assumes x: "wf_tensor x" "dims x = B # d' # ds"
    and bi: "\<forall>i \<in> set (batch_index d). i < B"
    and sum: "sum_list (part_sizes d) = length (batch_index d)"
  shows "dispatch d x = Inr (map2 (\<lambda>n idx. \<lparr>dims = n # (if d' = 1 then ds else d' # ds),
                                            elems = concat (map (row x) idx)\<rparr>)
                              (part_sizes d) (chunk_samples d))"
proof -
  let ?sq = "if d' = 1 then ds else d' # ds"
  let ?rows = "map (row x) (batch_index d)"
  have sel: "index_select x (batch_index d)
      = Inr \<lparr>dims = length (batch_index d) # d' # ds, elems = concat ?rows\<rparr>"
    using x(2) bi by (fastforce simp: index_select_def)
  have sq: "squeeze1 \<lparr>dims = length (batch_index d) # d' # ds, elems = concat ?rows\<rparr>
      = Inr \<lparr>dims = length (batch_index d) # ?sq, elems = concat ?rows\<rparr>"
    by (simp add: squeeze1_def)
  have rs: "prod_list ?sq = rowsize x"
    using x(2) by (simp add: rowsize_def)
  have uni: "\<forall>r \<in> set ?rows. length r = rowsize x"
    using length_row[OF x(1)] x(2) bi by auto
  have "split_elems (rowsize x) (part_sizes d) (concat ?rows)
      = map (\<lambda>idx. concat (map (row x) idx)) (chunk_samples d)"
    by (simp add: split_elems_concat[OF uni] split_list_map chunk_samples_def comp_def)
  then have "torch_split \<lparr>dims = length (batch_index d) # ?sq, elems = concat ?rows\<rparr> (part_sizes d)
      = Inr (map2 (\<lambda>n es. \<lparr>dims = n # ?sq, elems = es\<rparr>) (part_sizes d)
               (map (\<lambda>idx. concat (map (row x) idx)) (chunk_samples d)))"
    using sum rs by (simp add: torch_split_def rowsize_def)
  also have "map2 (\<lambda>n es. \<lparr>dims = n # ?sq, elems = es\<rparr>) (part_sizes d)
               (map (\<lambda>idx. concat (map (row x) idx)) (chunk_samples d))
      = map2 (\<lambda>n idx. \<lparr>dims = n # ?sq, elems = concat (map (row x) idx)\<rparr>)
          (part_sizes d) (chunk_samples d)"
    by (simp add: zip_map2 case_prod_unfold)
  finally show ?thesis
    by (simp add: dispatch_def sel sq)
qed

lemma dispatch_dispatcher_of:
  assumes g: "dims g = [B, E]" "wf_tensor g" "nonneg g"
    and srt: "argsorts srt (map snd (nonzero g))"
    and x: "wf_tensor x" "dims x = B # d' # ds"
  shows "\<exists>cs. dispatch (dispatcher_of srt n g) x = Inr cs \<and> length cs = E \<and>
    (\<forall>e < E. dims (cs ! e) = part_sizes (dispatcher_of srt n g) ! e # (if d' = 1 then ds else d' # ds)
       \<and> wf_tensor (cs ! e)
       \<and> rows_of (cs ! e) = map (row x) (chunk_samples (dispatcher_of srt n g) ! e))"
proof -
  let ?d = "dispatcher_of srt n g"
  let ?sq = "if d' = 1 then ds else d' # ds"
  let ?cs = "map2 (\<lambda>n idx. \<lparr>dims = n # ?sq, elems = concat (map (row x) idx)\<rparr>)
               (part_sizes ?d) (chunk_samples ?d)"
  have bi: "\<forall>i \<in> set (batch_index ?d). i < B"
    using fst_flat_order_less[OF g(1) srt] by (simp add: dispatcher_of_def)
  have sum: "sum_list (part_sizes ?d) = length (batch_index ?d)"
    using sum_part_sizes[OF g srt, of n] by (simp add: dispatcher_of_def)
  have disp: "dispatch ?d x = Inr ?cs"
    by (rule dispatch_chunks[OF x bi sum])
  have lps: "length (part_sizes ?d) = E"
    using g(1) by (simp add: dispatcher_of_def)
  have lcs: "length (chunk_samples ?d) = E"
    by (rule length_chunk_samples[OF g srt])
  have "dims (?cs ! e) = part_sizes ?d ! e # ?sq \<and> wf_tensor (?cs ! e)
      \<and> rows_of (?cs ! e) = map (row x) (chunk_samples ?d ! e)" if e: "e < E" for e
  proof -
    let ?idx = "chunk_samples ?d ! e"
    have nth: "?cs ! e = \<lparr>dims = part_sizes ?d ! e # ?sq, elems = concat (map (row x) ?idx)\<rparr>"
      using e lps lcs by simp
    have len: "length (map (row x) ?idx) = part_sizes ?d ! e"
      using length_chunk_samples_nth[OF g srt e, of n] by simp
    have "set ?idx \<subseteq> {i. i < B}"
      using chunk_samples_set[OF g srt e, of n] by auto
    then have uni: "\<forall>r \<in> set (map (row x) ?idx). length r = prod_list ?sq"
      using length_row[OF x(1)] x(2) by (auto simp: rowsize_def)
    show ?thesis
      unfolding nth using rows_of_concat[OF uni] wf_concat_rows[OF uni] len by simp
  qed
  then show ?thesis using disp lps lcs by auto
qed

subsection \<open>expert_to_gates\<close>

lemma split_elems_one: "split_elems (Suc 0) ns xs = split_list ns xs"
  by (induction ns arbitrary: xs) simp_all

lemma split_flat_order:
  assumes g: "dims g = [B, E]" "wf_tensor g" "nonneg g"
    and srt: "argsorts srt (map snd (nonzero g))"
  shows "split_list (part_sizes (dispatcher_of srt n g)) (flat_order srt g)
       = map (\<lambda>e. filter (\<lambda>p. snd p = e) (flat_order srt g)) [0..<E]"
  unfolding part_sizes_flat_order[OF assms]
  by (simp only: split_list_sorted[OF sorted_flat_order[OF srt]])

lemma expert_to_gates_dispatcher_of:
  assumes g: "dims g = [B, E]" "wf_tensor g" "nonneg g"
    and srt: "argsorts srt (map snd (nonzero g))"
  shows "\<exists>gs. expert_to_gates (dispatcher_of srt n g) = Inr gs \<and> length gs = E \<and>
    (\<forall>e < E. dims (gs ! e) = [part_sizes (dispatcher_of srt n g) ! e, 1]
       \<and> elems (gs ! e) = map (\<lambda>i. at2 g i e) (chunk_samples (dispatcher_of srt n g) ! e))"
proof -
  let ?d = "dispatcher_of srt n g"
  let ?fl = "flat_order srt g"
  let ?vals = "map (\<lambda>e. map (\<lambda>(i, e). at2 g i e) (filter (\<lambda>p. snd p = e) ?fl)) [0..<E]"
  let ?gs = "map2 (\<lambda>n es. \<lparr>dims = [n, 1], elems = es\<rparr>) (part_sizes ?d) ?vals"
  have ng: "nonzero_gates ?d = \<lparr>dims = [length ?fl, 1], elems = map (\<lambda>(i, e). at2 g i e) ?fl\<rparr>"
    by (simp add: dispatcher_of_def)
  have sum: "sum_list (part_sizes ?d) = length ?fl"
    by (rule sum_part_sizes[OF assms])
  have "split_elems 1 (part_sizes ?d) (map (\<lambda>(i, e). at2 g i e) ?fl) = ?vals"
    by (simp add: split_elems_one split_list_map split_flat_order[OF assms] comp_def)
  then have etg: "expert_to_gates ?d = Inr ?gs"
    using sum by (simp add: expert_to_gates_def ng torch_split_def rowsize_def)
  have lps: "length (part_sizes ?d) = E"
    using g(1) by (simp add: dispatcher_of_def)
  have "dims (?gs ! e) = [part_sizes ?d ! e, 1]
      \<and> elems (?gs ! e) = map (\<lambda>i. at2 g i e) (chunk_samples ?d ! e)" if e: "e < E" for e
  proof -
    have "map (\<lambda>(i, e). at2 g i e) (filter (\<lambda>p. snd p = e) ?fl)
        = map (\<lambda>i. at2 g i e) (map fst (filter (\<lambda>p. snd p = e) ?fl))"
      by (auto simp: case_prod_unfold)
    then show ?thesis
      using e lps by (simp add: chunk_samples_flat_order[OF assms])
  qed
  then show ?thesis using etg lps by auto
qed

lemma wf_G_scenario: "wf_tensor G_scenario" "dims G_scenario = [4, 2]" "nonneg G_scenario"
  by (simp_all add: G_scenario_def wf_tensor_def nonneg_def)

section \<open>C1: dispatch\<close>

text \<open>
  C1, as amended. For a non-negative gate matrix of shape \<open>[B, E]\<close> and an input tensor
  with leading dimension B and at least one further dimension, whatever sorting
  permutation \<open>torch.sort\<close> returns, the constructor and \<open>dispatch\<close> succeed and \<open>dispatch\<close>
  returns E tensors in expert order; chunk e has leading dimension \<open>part_sizes[e]\<close>; its
  rows are the rows \<open>x[i]\<close> of the samples i that \<open>batch_index\<close> lists for expert e, and
  these are the samples with \<open>G[i, e] > 0\<close>, each once (so a sample routed to k experts is
  in k chunks). They come in the order the sort leaves them in: ascending in i when the
  sort keeps equal expert ids in their original order, which the call does not ask for.
\<close>

theorem dispatch_rows:
  assumes "dims g = [B, E]" "wf_tensor g" "nonneg g"
    and "argsorts srt (map snd (nonzero g))"
    and "wf_tensor x" "dims x = B # d' # ds"
  shows "\<exists>d cs. init srt n g = Inr d \<and> dispatch d x = Inr cs \<and> length cs = E \<and>
    (\<forall>e < E. hd (dims (cs ! e)) = part_sizes d ! e
       \<and> rows_of (cs ! e) = map (row x) (chunk_samples d ! e)
       \<and> distinct (chunk_samples d ! e)
       \<and> set (chunk_samples d ! e) = {i. i < B \<and> 0 < at2 g i e}
       \<and> mset (rows_of (cs ! e)) = mset (map (row x) (filter (\<lambda>i. 0 < at2 g i e) [0..<B]))
       \<and> (srt (map snd (nonzero g)) = stable_argsort (map snd (nonzero g)) \<longrightarrow>
            rows_of (cs ! e) = map (row x) (filter (\<lambda>i. 0 < at2 g i e) [0..<B])))"
proof -
  let ?d = "dispatcher_of srt n g"
  note g = assms(1-3) and srt = assms(4)
  obtain cs where cs: "dispatch ?d x = Inr cs" "length cs = E"
    and chunks: "\<And>e. e < E \<Longrightarrow>
      dims (cs ! e) = part_sizes ?d ! e # (if d' = 1 then ds else d' # ds)
      \<and> wf_tensor (cs ! e)
      \<and> rows_of (cs ! e) = map (row x) (chunk_samples ?d ! e)"
    using dispatch_dispatcher_of[OF g srt assms(5,6), of n] by blast
  have "hd (dims (cs ! e)) = part_sizes ?d ! e
       \<and> rows_of (cs ! e) = map (row x) (chunk_samples ?d ! e)
       \<and> distinct (chunk_samples ?d ! e)
       \<and> set (chunk_samples ?d ! e) = {i. i < B \<and> 0 < at2 g i e}
       \<and> mset (rows_of (cs ! e)) = mset (map (row x) (filter (\<lambda>i. 0 < at2 g i e) [0..<B]))
       \<and> (srt (map snd (nonzero g)) = stable_argsort (map snd (nonzero g)) \<longrightarrow>
            rows_of (cs ! e) = map (row x) (filter (\<lambda>i. 0 < at2 g i e) [0..<B]))"
    if e: "e < E" for e
  proof -
    have rows: "rows_of (cs ! e) = map (row x) (chunk_samples ?d ! e)"
      and hd: "hd (dims (cs ! e)) = part_sizes ?d ! e"
      using chunks[OF e] by simp_all
    have m: "mset (chunk_samples ?d ! e) = mset (routed g e)"
      by (rule chunk_samples_mset[OF g srt e])
    have r: "routed g e = filter (\<lambda>i. 0 < at2 g i e) [0..<B]"
      using g(1) by (simp add: routed_def)
    have "mset (map (row x) (chunk_samples ?d ! e)) = mset (map (row x) (routed g e))"
      using m by (metis mset_map)
    then have ms: "mset (rows_of (cs ! e)) = mset (map (row x) (filter (\<lambda>i. 0 < at2 g i e) [0..<B]))"
      unfolding rows r .
    have st: "rows_of (cs ! e) = map (row x) (filter (\<lambda>i. 0 < at2 g i e) [0..<B])"
      if "srt (map snd (nonzero g)) = stable_argsort (map snd (nonzero g))"
      using chunk_samples_stable[where srt=srt and n=n, OF g that e] rows r by simp
    show ?thesis
      using hd rows ms st chunk_samples_distinct[OF g srt e, of n]
        chunk_samples_set[OF g srt e, of n] by blast
  qed
  then show ?thesis
    using init_ok[OF assms(1,2) srt, of n] cs by blast
qed

theorem dispatch_rows_witness:
  "\<exists>d cs. init stable_argsort 2 G_scenario = Inr d
     \<and> dispatch d \<lparr>dims = [4, 1, 2], elems = [10, 11, 20, 21, 30, 31, 40, 41 :: nat]\<rparr> = Inr cs
     \<and> length cs = 2
     \<and> hd (dims (cs ! 0)) = part_sizes d ! 0
     \<and> rows_of (cs ! 0) = [[10, 11], [30, 31]]
     \<and> hd (dims (cs ! 1)) = part_sizes d ! 1
     \<and> rows_of (cs ! 1) = [[20, 21], [30, 31]]"
proof -
  let ?x = "\<lparr>dims = [4, 1, 2], elems = [10, 11, 20, 21, 30, 31, 40, 41 :: nat]\<rparr>"
  let ?ks = "map snd (nonzero G_scenario)"
  have r0: "map (row ?x) (filter (\<lambda>i. 0 < at2 G_scenario i 0) [0..<4]) = [[10, 11], [30, 31]]"
    unfolding G_scenario_def by code_simp
  have r1: "map (row ?x) (filter (\<lambda>i. 0 < at2 G_scenario i 1) [0..<4]) = [[20, 21], [30, 31]]"
    unfolding G_scenario_def by code_simp
  have "wf_tensor ?x" by (simp add: wf_tensor_def)
  from dispatch_rows[where srt=stable_argsort and n=2 and d'=1 and ds="[2]",
      OF wf_G_scenario(2,1,3) argsorts_stable_argsort this]
  obtain d cs where "init stable_argsort 2 G_scenario = Inr d" "dispatch d ?x = Inr cs" "length cs = 2"
    and c: "\<And>e. e < 2 \<Longrightarrow> hd (dims (cs ! e)) = part_sizes d ! e
       \<and> (stable_argsort ?ks = stable_argsort ?ks \<longrightarrow>
            rows_of (cs ! e) = map (row ?x) (filter (\<lambda>i. 0 < at2 G_scenario i e) [0..<4]))"
    by auto
  moreover have "hd (dims (cs ! 0)) = part_sizes d ! 0 \<and> rows_of (cs ! 0) = [[10, 11], [30, 31]]"
    using c[of 0] r0 by simp
  moreover have "hd (dims (cs ! 1)) = part_sizes d ! 1 \<and> rows_of (cs ! 1) = [[20, 21], [30, 31]]"
    using c[of 1] r1 by simp
  ultimately show ?thesis by blast
qed

text \<open>
  C1 as stated fails: an input with leading dimension B and no further dimension makes
  \<open>squeeze(1)\<close> raise IndexError.
\<close>

theorem dispatch_rows_counterexample:
  "init stable_argsort 1 G_one
     = Inr \<lparr>gates = G_one, num_experts = 1, expert_index = [0], batch_index = [0],
            part_sizes = [1], nonzero_gates = \<lparr>dims = [1, 1], elems = [1]\<rparr>\<rparr>
   \<and> dispatch \<lparr>gates = G_one, num_experts = 1, expert_index = [0], batch_index = [0],
            part_sizes = [1], nonzero_gates = \<lparr>dims = [1, 1], elems = [1]\<rparr>\<rparr>
        \<lparr>dims = [1], elems = [5 :: nat]\<rparr> = Inl IndexError"
  unfolding G_one_def by code_simp

section \<open>C7: feature dimensions of the chunks\<close>

text \<open>
  C7, as amended. For an input of shape \<open>B # d' # ds\<close>, every chunk returned by \<open>dispatch\<close>
  has the feature dimensions \<open>d' # ds\<close> of the input when \<open>d' \<noteq> 1\<close>; when the first feature
  dimension has size 1, \<open>squeeze(1)\<close> removes it and the chunks have feature dimensions
  \<open>ds\<close>.
\<close>

theorem dispatch_feature_dims:
  assumes "dims g = [B, E]" "wf_tensor g" "nonneg g"
    and "argsorts srt (map snd (nonzero g))"
    and "wf_tensor x" "dims x = B # d' # ds"
  shows "\<exists>d cs. init srt n g = Inr d \<and> dispatch d x = Inr cs \<and> length cs = E \<and>
    (\<forall>c \<in> set cs. tl (dims c) = (if d' = 1 then ds else d' # ds))"
proof -
  let ?d = "dispatcher_of srt n g"
  obtain cs where cs: "dispatch ?d x = Inr cs" "length cs = E"
    and chunks: "\<And>e. e < E \<Longrightarrow>
      dims (cs ! e) = part_sizes ?d ! e # (if d' = 1 then ds else d' # ds)
      \<and> wf_tensor (cs ! e)
      \<and> rows_of (cs ! e) = map (row x) (chunk_samples ?d ! e)"
    using dispatch_dispatcher_of[where srt=srt and n=n, OF assms] by blast
  have "tl (dims c) = (if d' = 1 then ds else d' # ds)" if "c \<in> set cs" for c
  proof -
    from that obtain e where "e < length cs" "cs ! e = c"
      unfolding in_set_conv_nth by blast
    then show ?thesis using chunks[of e] cs(2) by simp
  qed
  then show ?thesis
    using init_ok[OF assms(1,2,4), of n] cs by blast
qed

theorem dispatch_feature_dims_witness:
  "\<exists>d cs. init stable_argsort 2 G_scenario = Inr d
     \<and> dispatch d \<lparr>dims = [4, 3, 2], elems = replicate 24 (0 :: nat)\<rparr> = Inr cs
     \<and> length cs = 2 \<and> tl (dims (cs ! 0)) = [3, 2] \<and> tl (dims (cs ! 1)) = [3, 2]"
proof -
  let ?x = "\<lparr>dims = [4, 3, 2], elems = replicate 24 (0 :: nat)\<rparr>"
  have "wf_tensor ?x" by (simp add: wf_tensor_def)
  from dispatch_feature_dims[where srt=stable_argsort and n=2 and d'=3 and ds="[2]",
      OF wf_G_scenario(2,1,3) argsorts_stable_argsort this]
  obtain d cs where *: "init stable_argsort 2 G_scenario = Inr d" "dispatch d ?x = Inr cs"
    "length cs = 2" "\<forall>c \<in> set cs. tl (dims c) = [3, 2]"
    by auto
  then have "cs ! 0 \<in> set cs" "cs ! 1 \<in> set cs" by simp_all
  with * show ?thesis by blast
qed

lemma init_G_one:
  "init stable_argsort 1 G_one
     = Inr \<lparr>gates = G_one, num_experts = 1, expert_index = [0], batch_index = [0],
            part_sizes = [1], nonzero_gates = \<lparr>dims = [1, 1], elems = [1]\<rparr>\<rparr>"
  unfolding G_one_def by code_simp

lemma c7b:
  "dispatch \<lparr>gates = G_one, num_experts = 1, expert_index = [0], batch_index = [0],
            part_sizes = [1], nonzero_gates = \<lparr>dims = [1, 1], elems = [1]\<rparr>\<rparr>
        \<lparr>dims = [1, 1, 2], elems = [7, 8 :: nat]\<rparr>
     = Inr [\<lparr>dims = [1, 2], elems = [7, 8]\<rparr>]"
  by (simp add: dispatch_def index_select_def squeeze1_def torch_split_def row_def rowsize_def)

theorem dispatch_feature_dims_counterexample:
  "init stable_argsort 1 G_one
     = Inr \<lparr>gates = G_one, num_experts = 1, expert_index = [0], batch_index = [0],
            part_sizes = [1], nonzero_gates = \<lparr>dims = [1, 1], elems = [1]\<rparr>\<rparr>
   \<and> dispatch \<lparr>gates = G_one, num_experts = 1, expert_index = [0], batch_index = [0],
            part_sizes = [1], nonzero_gates = \<lparr>dims = [1, 1], elems = [1]\<rparr>\<rparr>
        \<lparr>dims = [1, 1, 2], elems = [7, 8 :: nat]\<rparr>
     = Inr [\<lparr>dims = [1, 2], elems = [7, 8]\<rparr>]
   \<and> tl (dims \<lparr>dims = [1, 2], elems = [7, 8 :: nat]\<rparr>)
     \<noteq> tl (dims \<lparr>dims = [1, 1, 2], elems = [7, 8 :: nat]\<rparr>)"
  using init_G_one c7b by simp

section \<open>C4: expert_to_gates\<close>

lemma routed_scenario: "routed G_scenario 0 = [0, 2]" "routed G_scenario 1 = [1, 2]"
  unfolding G_scenario_def by code_simp+

lemma at2_scenario:
  "at2 G_scenario 0 0 = 1" "at2 G_scenario 2 0 = 1" "at2 G_scenario 1 1 = 1" "at2 G_scenario 2 1 = 1"
  by (simp_all add: G_scenario_def at2_def)

lemma tensor_eqI: "dims (t :: 'a tensor) = ds \<Longrightarrow> elems t = es \<Longrightarrow> t = \<lparr>dims = ds, elems = es\<rparr>"
  by (cases t) simp

lemma map_const_two:
  "length xs = 2 \<Longrightarrow> \<forall>x \<in> set xs. f x = c \<Longrightarrow> map f xs = [c, c]"
  by (cases xs; cases "tl xs") auto

text \<open>
  C4. \<open>expert_to_gates\<close> returns E chunks with the leading dimensions \<open>part_sizes\<close>, as
  \<open>dispatch\<close> does; chunk e of \<open>dispatch\<close> holds the rows of the samples
  \<open>chunk_samples d ! e\<close>, and entry j of chunk e of \<open>expert_to_gates\<close> is \<open>G[i, e]\<close> for the
  sample i at position j of that list. In the scenario \<open>G = [[1,0],[0,1],[1,1],[0,0]]\<close>:
  \<open>part_sizes = [2, 2]\<close>, expert 0 receives samples 0 and 2, expert 1 receives samples 1 and 2,
  and the gate values returned are 1, 1 and 1, 1 (each chunk a \<open>[2, 1]\<close> tensor).
\<close>

theorem expert_to_gates_aligned:
  assumes "dims g = [B, E]" "wf_tensor g" "nonneg g"
    and "argsorts srt (map snd (nonzero g))"
    and "wf_tensor x" "dims x = B # d' # ds"
  shows "(\<exists>d gs cs. init srt n g = Inr d \<and> expert_to_gates d = Inr gs \<and> dispatch d x = Inr cs
      \<and> length gs = E \<and> length cs = E
      \<and> (\<forall>e < E. dims (gs ! e) = [part_sizes d ! e, 1]
            \<and> hd (dims (cs ! e)) = part_sizes d ! e
            \<and> length (chunk_samples d ! e) = part_sizes d ! e
            \<and> rows_of (cs ! e) = map (row x) (chunk_samples d ! e)
            \<and> elems (gs ! e) = map (\<lambda>i. at2 g i e) (chunk_samples d ! e)))
    \<and> (\<forall>s. argsorts s (map snd (nonzero G_scenario)) \<longrightarrow>
         (\<exists>d. init s 2 G_scenario = Inr d \<and> part_sizes d = [2, 2]
            \<and> set (chunk_samples d ! 0) = {0, 2} \<and> set (chunk_samples d ! 1) = {1, 2}
            \<and> expert_to_gates d
               = Inr [\<lparr>dims = [2, 1], elems = [1, 1]\<rparr>, \<lparr>dims = [2, 1], elems = [1, 1]\<rparr>]))"
proof
  let ?d = "dispatcher_of srt n g"
  obtain cs where cs: "dispatch ?d x = Inr cs" "length cs = E"
    and chunks: "\<And>e. e < E \<Longrightarrow>
      dims (cs ! e) = part_sizes ?d ! e # (if d' = 1 then ds else d' # ds)
      \<and> wf_tensor (cs ! e)
      \<and> rows_of (cs ! e) = map (row x) (chunk_samples ?d ! e)"
    using dispatch_dispatcher_of[where srt=srt and n=n, OF assms] by blast
  obtain gs where gs: "expert_to_gates ?d = Inr gs" "length gs = E"
    and gates: "\<And>e. e < E \<Longrightarrow> dims (gs ! e) = [part_sizes ?d ! e, 1]
       \<and> elems (gs ! e) = map (\<lambda>i. at2 g i e) (chunk_samples ?d ! e)"
    using expert_to_gates_dispatcher_of[where srt=srt and n=n, OF assms(1-4)] by blast
  have "dims (gs ! e) = [part_sizes ?d ! e, 1]
      \<and> hd (dims (cs ! e)) = part_sizes ?d ! e
      \<and> length (chunk_samples ?d ! e) = part_sizes ?d ! e
      \<and> rows_of (cs ! e) = map (row x) (chunk_samples ?d ! e)
      \<and> elems (gs ! e) = map (\<lambda>i. at2 g i e) (chunk_samples ?d ! e)" if "e < E" for e
    using chunks[OF that] gates[OF that]
      length_chunk_samples_nth[where srt=srt and n=n, OF assms(1-4) that] by simp
  then show "\<exists>d gs cs. init srt n g = Inr d \<and> expert_to_gates d = Inr gs \<and> dispatch d x = Inr cs
      \<and> length gs = E \<and> length cs = E
      \<and> (\<forall>e < E. dims (gs ! e) = [part_sizes d ! e, 1]
            \<and> hd (dims (cs ! e)) = part_sizes d ! e
            \<and> length (chunk_samples d ! e) = part_sizes d ! e
            \<and> rows_of (cs ! e) = map (row x) (chunk_samples d ! e)
            \<and> elems (gs ! e) = map (\<lambda>i. at2 g i e) (chunk_samples d ! e))"
    using init_ok[OF assms(1,2,4), of n] cs gs by blast
next
  show "\<forall>s. argsorts s (map snd (nonzero G_scenario)) \<longrightarrow>
         (\<exists>d. init s 2 G_scenario = Inr d \<and> part_sizes d = [2, 2]
            \<and> set (chunk_samples d ! 0) = {0, 2} \<and> set (chunk_samples d ! 1) = {1, 2}
            \<and> expert_to_gates d
               = Inr [\<lparr>dims = [2, 1], elems = [1, 1]\<rparr>, \<lparr>dims = [2, 1], elems = [1, 1]\<rparr>])"
  proof (intro allI impI)
    fix s assume s: "argsorts s (map snd (nonzero G_scenario))"
    let ?d = "dispatcher_of s 2 G_scenario"
    note G = wf_G_scenario(2,1,3)
    have "[0..<2] = [0, Suc 0]"
      by (simp add: upt_rec)
    then have ps: "part_sizes ?d = [2, 2]"
      using routed_scenario by (simp add: dispatcher_of_def routed_def wf_G_scenario(2))
    have "mset (chunk_samples ?d ! 0) = mset [0, 2]" "mset (chunk_samples ?d ! 1) = mset [1, 2]"
      using chunk_samples_mset[where srt=s and n=2, OF G s] routed_scenario by simp_all
    then have "set_mset (mset (chunk_samples ?d ! 0)) = set_mset (mset [0, 2])"
      "set_mset (mset (chunk_samples ?d ! 1)) = set_mset (mset [1, 2])"
      by (simp_all only:)
    then have set0: "set (chunk_samples ?d ! 0) = {0, 2}" and set1: "set (chunk_samples ?d ! 1) = {1, 2}"
      by (simp_all only: set_mset_mset list.set)
    have len: "length (chunk_samples ?d ! 0) = 2" "length (chunk_samples ?d ! 1) = 2"
      using length_chunk_samples_nth[where srt=s and n=2, OF G s] ps by simp_all
    obtain gs where gs: "expert_to_gates ?d = Inr gs" "length gs = 2"
      and gates: "\<And>e. e < 2 \<Longrightarrow> dims (gs ! e) = [part_sizes ?d ! e, 1]
         \<and> elems (gs ! e) = map (\<lambda>i. at2 G_scenario i e) (chunk_samples ?d ! e)"
      using expert_to_gates_dispatcher_of[where srt=s and n=2, OF G s] by blast
    have "map (\<lambda>i. at2 G_scenario i 0) (chunk_samples ?d ! 0) = [1, 1]"
      using set0 at2_scenario by (intro map_const_two[OF len(1)]) auto
    then have g0: "gs ! 0 = \<lparr>dims = [2, 1], elems = [1, 1]\<rparr>"
      using gates[of 0] ps by (intro tensor_eqI) simp_all
    have "map (\<lambda>i. at2 G_scenario i 1) (chunk_samples ?d ! 1) = [1, 1]"
      using set1 at2_scenario by (intro map_const_two[OF len(2)]) auto
    then have g1: "gs ! 1 = \<lparr>dims = [2, 1], elems = [1, 1]\<rparr>"
      using gates[of 1] ps by (intro tensor_eqI) simp_all
    have "gs = [gs ! 0, gs ! 1]"
      using gs(2) by (cases gs; cases "tl gs") auto
    then have "gs = [\<lparr>dims = [2, 1], elems = [1, 1]\<rparr>, \<lparr>dims = [2, 1], elems = [1, 1]\<rparr>]"
      using g0 g1 by simp
    then show "\<exists>d. init s 2 G_scenario = Inr d \<and> part_sizes d = [2, 2]
            \<and> set (chunk_samples d ! 0) = {0, 2} \<and> set (chunk_samples d ! 1) = {1, 2}
            \<and> expert_to_gates d
               = Inr [\<lparr>dims = [2, 1], elems = [1, 1]\<rparr>, \<lparr>dims = [2, 1], elems = [1, 1]\<rparr>]"
      using init_ok[OF G(1,2) s, of 2] ps set0 set1 gs(1) by blast
  qed
qed

theorem expert_to_gates_aligned_witness:
  "\<exists>d gs cs. init stable_argsort 2 G_scenario = Inr d \<and> expert_to_gates d = Inr gs
     \<and> dispatch d \<lparr>dims = [4, 1, 2], elems = [10, 11, 20, 21, 30, 31, 40, 41 :: nat]\<rparr> = Inr cs
     \<and> length gs = 2 \<and> length cs = 2
     \<and> dims (gs ! 1) = [part_sizes d ! 1, 1]
     \<and> hd (dims (cs ! 1)) = part_sizes d ! 1
     \<and> rows_of (cs ! 1)
        = map (row \<lparr>dims = [4, 1, 2], elems = [10, 11, 20, 21, 30, 31, 40, 41 :: nat]\<rparr>)
            (chunk_samples d ! 1)
     \<and> elems (gs ! 1) = map (\<lambda>i. at2 G_scenario i 1) (chunk_samples d ! 1)"
proof -
  let ?x = "\<lparr>dims = [4, 1, 2], elems = [10, 11, 20, 21, 30, 31, 40, 41 :: nat]\<rparr>"
  have "wf_tensor ?x" by (simp add: wf_tensor_def)
  from expert_to_gates_aligned[where srt=stable_argsort and n=2 and d'=1 and ds="[2]",
      OF wf_G_scenario(2,1,3) argsorts_stable_argsort this, THEN conjunct1]
  obtain d gs cs where *: "init stable_argsort 2 G_scenario = Inr d" "expert_to_gates d = Inr gs"
    "dispatch d ?x = Inr cs" "length gs = 2" "length cs = 2"
    and c: "\<And>e. e < 2 \<Longrightarrow> dims (gs ! e) = [part_sizes d ! e, 1]
            \<and> hd (dims (cs ! e)) = part_sizes d ! e
            \<and> length (chunk_samples d ! e) = part_sizes d ! e
            \<and> rows_of (cs ! e) = map (row ?x) (chunk_samples d ! e)
            \<and> elems (gs ! e) = map (\<lambda>i. at2 G_scenario i e) (chunk_samples d ! e)"
    by auto
  from c[of 1] * show ?thesis by auto
qed

section \<open>Rounding to float32\<close>

lemma round_half_even_of_int [simp]: "round_half_even (of_int k) = k"
  by (simp add: round_half_even_def)

lemma round_half_even_ge: "\<lfloor>q\<rfloor> \<le> round_half_even q"
  by (simp add: round_half_even_def)

lemma round_half_even_le: "round_half_even q \<le> \<lfloor>q\<rfloor> + 1"
  by (simp add: round_half_even_def)

lemma round_half_even_error: "\<bar>of_int (round_half_even q) - q\<bar> \<le> 1 / 2"
proof -
  have "of_int \<lfloor>q\<rfloor> \<le> q" "q < of_int \<lfloor>q\<rfloor> + 1"
    by linarith+
  then show ?thesis
    by (auto simp: round_half_even_def)
qed

lemma round_half_even_small: "\<bar>q\<bar> \<le> 1 / 2 \<Longrightarrow> round_half_even q = 0"
proof -
  assume a: "\<bar>q\<bar> \<le> 1 / 2"
  show ?thesis
  proof (cases "0 \<le> q")
    case True
    then have "\<lfloor>q\<rfloor> = 0" using a by (intro floor_unique) auto
    then show ?thesis using a True by (auto simp: round_half_even_def)
  next
    case False
    then have "\<lfloor>q\<rfloor> = - 1" using a by (intro floor_unique) auto
    then show ?thesis using a False by (auto simp: round_half_even_def)
  qed
qed


lemma f32_ulp_pos: "0 < f32_ulp r"
  by (simp add: f32_ulp_def)

lemma f32_max_pos: "0 < f32_max"
  by (simp add: f32_max_def)

lemma f32_round_0 [simp]: "f32_round 0 = Finite 0"
  by (simp add: f32_round_def)

lemma two_powr_int: "0 \<le> k \<Longrightarrow> (2::real) powr of_int k = 2 ^ nat k"
proof -
  assume "0 \<le> k"
  then have "real_of_int k = real (nat k)" by simp
  then show ?thesis by (simp only: powr_realpow zero_less_numeral)
qed

lemma two_powr_neg_int: "k \<le> 0 \<Longrightarrow> (2::real) powr of_int k = 1 / 2 ^ nat (- k)"
proof -
  assume "k \<le> 0"
  then have "(2::real) powr of_int (- k) = 2 ^ nat (- k)"
    by (intro two_powr_int) simp
  moreover have "(2::real) powr of_int k = inverse (2 powr of_int (- k))"
    by (simp add: powr_minus)
  ultimately show ?thesis
    by (simp only: inverse_eq_divide)
qed

lemma f32_round_underflow:
  assumes "\<bar>r\<bar> \<le> 1 / 2 ^ 150"
  shows "f32_round r = Finite 0"
proof (cases "r = 0")
  case True
  then show ?thesis by simp
next
  case False
  then have pos: "0 < \<bar>r\<bar>" by simp
  have "\<bar>r\<bar> \<le> 2 powr (- 150)"
    using assms two_powr_neg_int[of "- 150"] by simp
  then have "log 2 \<bar>r\<bar> \<le> - 150"
    using pos by (simp add: log_le_iff)
  then have "\<lfloor>log 2 \<bar>r\<bar>\<rfloor> \<le> - 150"
    by (simp add: floor_le_iff)
  then have "max \<lfloor>log 2 \<bar>r\<bar>\<rfloor> (- 126) = - 126"
    by simp
  then have ulp: "f32_ulp r = 1 / 2 ^ 149"
    using two_powr_neg_int[of "- 149"] by (simp add: f32_ulp_def)
  have "\<bar>r / f32_ulp r\<bar> \<le> 1 / 2"
    using assms unfolding ulp by (simp add: abs_mult)
  then have "round_half_even (r / f32_ulp r) = 0"
    by (rule round_half_even_small)
  then show ?thesis
    using False f32_max_pos by (simp add: f32_round_def)
qed


lemma f32_exponent_bounds:
  assumes "r \<noteq> 0"
  shows "2 powr of_int \<lfloor>log 2 \<bar>r\<bar>\<rfloor> \<le> \<bar>r\<bar>" "\<bar>r\<bar> < 2 powr (of_int \<lfloor>log 2 \<bar>r\<bar>\<rfloor> + 1)"
proof -
  have pos: "0 < \<bar>r\<bar>" using assms by simp
  have "2 powr of_int \<lfloor>log 2 \<bar>r\<bar>\<rfloor> \<le> 2 powr log 2 \<bar>r\<bar>"
    by (intro powr_mono) simp_all
  then show "2 powr of_int \<lfloor>log 2 \<bar>r\<bar>\<rfloor> \<le> \<bar>r\<bar>"
    using pos by simp
  have "log 2 \<bar>r\<bar> < of_int \<lfloor>log 2 \<bar>r\<bar>\<rfloor> + 1" by linarith
  then have "2 powr log 2 \<bar>r\<bar> < 2 powr (of_int \<lfloor>log 2 \<bar>r\<bar>\<rfloor> + 1)"
    by (intro powr_less_mono) simp_all
  then show "\<bar>r\<bar> < 2 powr (of_int \<lfloor>log 2 \<bar>r\<bar>\<rfloor> + 1)"
    using pos by simp
qed

lemma powr_split: "(2::real) powr a = 2 powr b * 2 powr (a - b)"
  using powr_add[of 2 b "a - b"] by simp

lemma two_powr_less_D: "(2::real) powr a < 2 powr b \<Longrightarrow> a < b"
  by simp

lemma f32_ulp_eq:
  "e = max \<lfloor>log 2 \<bar>r\<bar>\<rfloor> (- 126) \<Longrightarrow> f32_ulp r = 2 powr (of_int e - 23)"
  by (simp only: f32_ulp_def)

lemma two_powr_numeral:
  "(2::real) powr 23 = 2 ^ 23" "(2::real) powr 24 = 2 ^ 24" "(2::real) powr 127 = 2 ^ 127"
  "(2::real) powr 128 = 2 ^ 128" "(2::real) powr (- 126) = 1 / 2 ^ 126"
  "(2::real) powr (- 149) = 1 / 2 ^ 149" "(2::real) powr (- 150) = 1 / 2 ^ 150"
  using two_powr_int[of 23] two_powr_int[of 24] two_powr_int[of 127] two_powr_int[of 128]
    two_powr_neg_int[of "- 126"] two_powr_neg_int[of "- 149"] two_powr_neg_int[of "- 150"]
  by simp_all

lemma f32_round_overflow:
  assumes "2 ^ 128 \<le> r"
  shows "f32_round r = PosInf"
proof -
  define e where "e = \<lfloor>log 2 \<bar>r\<bar>\<rfloor>"
  define q where "q = r / f32_ulp r"
  have "(0::real) < 2 ^ 128" by simp
  then have r: "0 < r" "r \<noteq> 0" "\<bar>r\<bar> = r"
    using assms by linarith+
  have "(2::real) powr 128 \<le> r"
    using assms by (simp only: two_powr_numeral)
  then have "128 \<le> log 2 r"
    using r(1) by (simp add: le_log_iff)
  then have "128 \<le> \<lfloor>log 2 \<bar>r\<bar>\<rfloor>"
    unfolding r(3) by (simp add: le_floor_iff)
  then have e: "128 \<le> e"
    by (simp only: e_def)
  then have "e = max \<lfloor>log 2 \<bar>r\<bar>\<rfloor> (- 126)"
    unfolding e_def by linarith
  then have ulp: "f32_ulp r = 2 powr (of_int e - 23)"
    by (rule f32_ulp_eq)
  have le: "2 powr of_int e \<le> r"
    using f32_exponent_bounds(1)[OF r(2)] unfolding r(3) e_def .
  have split: "2 powr of_int e = 2 powr 23 * f32_ulp r"
    unfolding ulp by (rule powr_split)
  have "2 powr 23 * f32_ulp r \<le> r"
    using le split by simp
  then have "2 powr 23 \<le> q"
    unfolding q_def using f32_ulp_pos[of r] by (simp add: pos_le_divide_eq)
  then have "real_of_int (2 ^ 23) \<le> q"
    by (simp add: two_powr_numeral)
  then have "2 ^ 23 \<le> \<lfloor>q\<rfloor>"
    by (simp only: le_floor_iff)
  then have "2 ^ 23 \<le> round_half_even q"
    using round_half_even_ge[of q] by linarith
  then have "real_of_int (2 ^ 23) \<le> of_int (round_half_even q)"
    by (simp only: of_int_le_iff)
  then have "2 powr 23 \<le> real_of_int (round_half_even q)"
    by (simp add: two_powr_numeral)
  then have "2 powr 23 * f32_ulp r \<le> of_int (round_half_even q) * f32_ulp r"
    using f32_ulp_pos[of r] by (intro mult_right_mono) simp_all
  moreover have "(2::real) powr 128 \<le> 2 powr of_int e"
    using e by (intro powr_mono) simp_all
  ultimately have "(2::real) powr 128 \<le> of_int (round_half_even q) * f32_ulp r"
    using split by linarith
  moreover have "f32_max < 2 powr 128"
    unfolding two_powr_numeral by (simp add: f32_max_def)
  ultimately have "f32_max < of_int (round_half_even (r / f32_ulp r)) * f32_ulp r"
    unfolding q_def by linarith
  then show ?thesis
    using r(2) by (simp add: f32_round_def Let_def)
qed

lemma f32_round_exact:
  assumes r: "r = of_int m * 2 powr of_int k" and m: "\<bar>m\<bar> < 2 ^ 24" and k: "- 149 \<le> k"
    and le: "\<bar>r\<bar> \<le> f32_max"
  shows "f32_round r = Finite r"
proof (cases "r = 0")
  case True
  then show ?thesis by simp
next
  case False
  define e where "e = max \<lfloor>log 2 \<bar>r\<bar>\<rfloor> (- 126)"
  have pos: "0 < \<bar>r\<bar>" using False by simp
  have "real_of_int \<bar>m\<bar> < real_of_int (2 ^ 24)"
    using m by (simp only: of_int_less_iff)
  then have lt: "real_of_int \<bar>m\<bar> * 2 powr of_int k < real_of_int (2 ^ 24) * 2 powr of_int k"
    by (intro mult_strict_right_mono) simp_all
  have eq1: "\<bar>r\<bar> = of_int \<bar>m\<bar> * 2 powr of_int k"
    unfolding r by (simp add: abs_mult)
  have "(2::real) powr (of_int (24 + k)) = 2 powr 24 * 2 powr (of_int (24 + k) - 24)"
    by (rule powr_split)
  also have "(2::real) powr 24 = real_of_int (2 ^ 24)"
    by (simp add: two_powr_numeral)
  also have "real_of_int (24 + k) - 24 = of_int k"
    by simp
  finally have eq2: "real_of_int (2 ^ 24) * 2 powr of_int k = 2 powr (of_int (24 + k))"
    by (rule sym)
  have "\<bar>r\<bar> < 2 powr (of_int (24 + k))"
    unfolding eq1 eq2[symmetric] by (rule lt)
  then have "2 powr log 2 \<bar>r\<bar> < 2 powr (of_int (24 + k))"
    using pos by simp
  then have "log 2 \<bar>r\<bar> < of_int (24 + k)"
    by (rule two_powr_less_D)
  then have "\<lfloor>log 2 \<bar>r\<bar>\<rfloor> < 24 + k"
    by (simp only: floor_less_iff)
  then have j: "0 \<le> k - (e - 23)"
    using k unfolding e_def by linarith
  have ulp: "f32_ulp r = 2 powr (of_int e - 23)"
    using e_def by (rule f32_ulp_eq)
  have "r / f32_ulp r = r / 2 powr (of_int e - 23)"
    by (simp only: ulp)
  also have "\<dots> = of_int m * (2 powr of_int k / 2 powr (of_int e - 23))"
    by (simp add: r)
  also have "(2::real) powr of_int k / 2 powr (of_int e - 23) = 2 powr (of_int k - (of_int e - 23))"
    by (simp only: powr_diff)
  also have "of_int k - (of_int e - 23) = real_of_int (k - (e - 23))"
    by simp
  also have "2 powr real_of_int (k - (e - 23)) = 2 ^ nat (k - (e - 23))"
    by (rule two_powr_int[OF j])
  also have "of_int m * 2 ^ nat (k - (e - 23)) = real_of_int (m * 2 ^ nat (k - (e - 23)))"
    by simp
  finally have q: "r / f32_ulp r = real_of_int (m * 2 ^ nat (k - (e - 23)))" .
  have "of_int (round_half_even (r / f32_ulp r)) * f32_ulp r = r / f32_ulp r * f32_ulp r"
    unfolding q by (simp only: round_half_even_of_int)
  also have "\<dots> = r"
    using f32_ulp_pos[of r] by simp
  finally have "of_int (round_half_even (r / f32_ulp r)) * f32_ulp r = r" .
  moreover have "\<not> f32_max < r" "\<not> r < - f32_max"
    using le by linarith+
  ultimately show ?thesis
    using False by (simp add: f32_round_def Let_def)
qed


lemma f32_round_error:
  assumes "f32_round r = Finite y"
  shows "\<bar>y - r\<bar> \<le> f32_ulp r / 2"
proof (cases "r = 0")
  case True
  then show ?thesis using assms f32_ulp_pos[of r] by simp
next
  case False
  define q where "q = r / f32_ulp r"
  have y: "y = of_int (round_half_even q) * f32_ulp r"
    using assms False by (simp add: f32_round_def Let_def q_def split: if_splits)
  have "r = q * f32_ulp r"
    using f32_ulp_pos[of r] by (simp add: q_def)
  then have "y - r = (of_int (round_half_even q) - q) * f32_ulp r"
    by (simp add: y algebra_simps)
  then have "\<bar>y - r\<bar> = \<bar>of_int (round_half_even q) - q\<bar> * f32_ulp r"
    using f32_ulp_pos[of r] by (simp add: abs_mult)
  also have "\<dots> \<le> 1 / 2 * f32_ulp r"
    using round_half_even_error[of q] f32_ulp_pos[of r] by (intro mult_right_mono) simp_all
  finally show ?thesis by simp
qed

lemma f32_ulp_le:
  assumes "1 / 2 ^ 126 \<le> \<bar>r\<bar>"
  shows "f32_ulp r \<le> \<bar>r\<bar> / 2 ^ 23"
proof -
  define e where "e = \<lfloor>log 2 \<bar>r\<bar>\<rfloor>"
  have "(0::real) < 1 / 2 ^ 126" by simp
  then have "0 < \<bar>r\<bar>" using assms by linarith
  then have r: "r \<noteq> 0" by simp
  have "2 powr (- 126) \<le> \<bar>r\<bar>"
    using assms by (simp only: two_powr_numeral)
  then have "- 126 \<le> log 2 \<bar>r\<bar>"
    using r by (simp add: le_log_iff)
  then have "- 126 \<le> \<lfloor>log 2 \<bar>r\<bar>\<rfloor>"
    by (simp add: le_floor_iff)
  then have "e = max \<lfloor>log 2 \<bar>r\<bar>\<rfloor> (- 126)"
    unfolding e_def by linarith
  then have "f32_ulp r = 2 powr (of_int e - 23)"
    by (rule f32_ulp_eq)
  also have "\<dots> = 2 powr of_int e / 2 powr 23"
    by (simp add: powr_diff)
  also have "\<dots> \<le> \<bar>r\<bar> / 2 powr 23"
    using f32_exponent_bounds(1)[OF r] unfolding e_def by (simp add: divide_right_mono)
  finally show ?thesis
    by (simp only: two_powr_numeral)
qed



lemma f32_round_finite:
  assumes "\<bar>r\<bar> < 2 ^ 127"
  shows "\<exists>y. f32_round r = Finite y"
proof (cases "r = 0")
  case True
  then show ?thesis by simp
next
  case False
  define e where "e = max \<lfloor>log 2 \<bar>r\<bar>\<rfloor> (- 126)"
  define q where "q = r / f32_ulp r"
  define k where "k = round_half_even q"
  have pos: "0 < \<bar>r\<bar>" using False by simp
  have "\<bar>r\<bar> < 2 powr 127"
    using assms by (simp only: two_powr_numeral)
  then have "2 powr log 2 \<bar>r\<bar> < 2 powr 127"
    using pos by simp
  then have "log 2 \<bar>r\<bar> < 127"
    by (rule two_powr_less_D)
  then have "log 2 \<bar>r\<bar> < of_int 127"
    by simp
  then have "\<lfloor>log 2 \<bar>r\<bar>\<rfloor> < 127"
    by (simp only: floor_less_iff)
  then have e: "e \<le> 126" "\<lfloor>log 2 \<bar>r\<bar>\<rfloor> \<le> e"
    unfolding e_def by linarith+
  have ulp: "f32_ulp r = 2 powr (of_int e - 23)"
    using e_def by (rule f32_ulp_eq)
  have "\<bar>r\<bar> < 2 powr (of_int \<lfloor>log 2 \<bar>r\<bar>\<rfloor> + 1)"
    by (rule f32_exponent_bounds(2)[OF False])
  also have "\<dots> \<le> 2 powr (of_int e + 1)"
    using e(2) by (intro powr_mono) simp_all
  also have "\<dots> = 2 powr 24 * 2 powr (of_int e + 1 - 24)"
    by (rule powr_split)
  also have "real_of_int e + 1 - 24 = of_int e - 23"
    by simp
  finally have "\<bar>r\<bar> < 2 powr 24 * f32_ulp r"
    unfolding ulp .
  then have "\<bar>r\<bar> / f32_ulp r < 2 powr 24"
    using f32_ulp_pos[of r] by (simp add: pos_divide_less_eq)
  then have q: "\<bar>q\<bar> < 2 ^ 24"
    unfolding q_def using f32_ulp_pos[of r] by (simp add: two_powr_numeral)
  have "\<bar>real_of_int k - q\<bar> \<le> 1 / 2"
    unfolding k_def by (rule round_half_even_error)
  then have "\<bar>real_of_int k\<bar> < 2 ^ 24 + 1"
    using q by linarith
  then have "\<bar>real_of_int k\<bar> < real_of_int (2 ^ 24 + 1)"
    by simp
  then have "real_of_int \<bar>k\<bar> < real_of_int (2 ^ 24 + 1)"
    by simp
  then have "\<bar>k\<bar> < 2 ^ 24 + 1"
    by (simp only: of_int_less_iff)
  then have "\<bar>k\<bar> \<le> 2 ^ 24"
    by simp
  then have "real_of_int \<bar>k\<bar> \<le> real_of_int (2 ^ 24)"
    by (simp only: of_int_le_iff)
  then have "\<bar>real_of_int k\<bar> \<le> 2 powr 24"
    by (simp add: two_powr_numeral)
  then have "\<bar>real_of_int k\<bar> * f32_ulp r \<le> 2 powr 24 * f32_ulp r"
    using f32_ulp_pos[of r] by (intro mult_right_mono) simp_all
  also have "\<dots> = 2 powr (of_int e + 1)"
    unfolding ulp using powr_split[of "of_int e + 1" 24] by simp
  also have "\<dots> \<le> 2 powr 127"
    using e(1) by (intro powr_mono) simp_all
  also have "\<dots> \<le> f32_max"
    unfolding two_powr_numeral by (simp add: f32_max_def)
  finally have "\<bar>real_of_int k * f32_ulp r\<bar> \<le> f32_max"
    using f32_ulp_pos[of r] by (simp add: abs_mult)
  then show ?thesis
    using False unfolding k_def q_def by (auto simp: f32_round_def Let_def)
qed

subsection \<open>Representable results\<close>

lemma f32_quotient_bound:
  assumes "r \<noteq> 0"
  shows "\<bar>round_half_even (r / f32_ulp r)\<bar> \<le> 2 ^ 24"
proof -
  define e where "e = max \<lfloor>log 2 \<bar>r\<bar>\<rfloor> (- 126)"
  define q where "q = r / f32_ulp r"
  define k where "k = round_half_even q"
  have e: "\<lfloor>log 2 \<bar>r\<bar>\<rfloor> \<le> e"
    unfolding e_def by linarith
  have ulp: "f32_ulp r = 2 powr (of_int e - 23)"
    using e_def by (rule f32_ulp_eq)
  have "\<bar>r\<bar> < 2 powr (of_int \<lfloor>log 2 \<bar>r\<bar>\<rfloor> + 1)"
    by (rule f32_exponent_bounds(2)[OF assms])
  also have "\<dots> \<le> 2 powr (of_int e + 1)"
    using e by (intro powr_mono) simp_all
  also have "\<dots> = 2 powr 24 * 2 powr (of_int e + 1 - 24)"
    by (rule powr_split)
  also have "real_of_int e + 1 - 24 = of_int e - 23"
    by simp
  finally have "\<bar>r\<bar> < 2 powr 24 * f32_ulp r"
    unfolding ulp .
  then have "\<bar>r\<bar> / f32_ulp r < 2 powr 24"
    using f32_ulp_pos[of r] by (simp add: pos_divide_less_eq)
  then have q: "\<bar>q\<bar> < 2 ^ 24"
    unfolding q_def using f32_ulp_pos[of r] by (simp add: two_powr_numeral)
  have "\<bar>real_of_int k - q\<bar> \<le> 1 / 2"
    unfolding k_def by (rule round_half_even_error)
  then have "\<bar>real_of_int k\<bar> < 2 ^ 24 + 1"
    using q by linarith
  then have "\<bar>real_of_int k\<bar> < real_of_int (2 ^ 24 + 1)"
    by simp
  then have "real_of_int \<bar>k\<bar> < real_of_int (2 ^ 24 + 1)"
    by simp
  then have "\<bar>k\<bar> < 2 ^ 24 + 1"
    by (simp only: of_int_less_iff)
  then show ?thesis
    unfolding k_def q_def by simp
qed

lemma f32_round_idem:
  assumes "f32_round r = Finite y"
  shows "f32_round y = Finite y"
proof (cases "r = 0")
  case True
  then show ?thesis using assms by auto
next
  case False
  define e where "e = max \<lfloor>log 2 \<bar>r\<bar>\<rfloor> (- 126)"
  define k where "k = round_half_even (r / f32_ulp r)"
  have e: "- 126 \<le> e"
    unfolding e_def by linarith
  have ulp: "f32_ulp r = 2 powr (of_int e - 23)"
    using e_def by (rule f32_ulp_eq)
  have y: "y = of_int k * f32_ulp r" and range: "\<not> f32_max < y" "\<not> y < - f32_max"
    using assms False by (simp_all add: f32_round_def Let_def k_def split: if_splits)
  have le: "\<bar>y\<bar> \<le> f32_max"
    using range by linarith
  have yk: "y = of_int k * 2 powr of_int (e - 23)"
    unfolding y ulp by simp
  have kb: "\<bar>k\<bar> \<le> 2 ^ 24"
    unfolding k_def by (rule f32_quotient_bound[OF False])
  consider "\<bar>k\<bar> < 2 ^ 24" | "k = 2 ^ 24" | "k = - (2 ^ 24)"
    using kb by linarith
  then show ?thesis
  proof cases
    case 1
    show ?thesis
      using yk 1 _ le by (rule f32_round_exact) (use e in simp)
  next
    case 2
    have "(2::real) powr of_int (e + 1) = 2 powr 24 * 2 powr (of_int (e + 1) - 24)"
      by (rule powr_split)
    also have "real_of_int (e + 1) - 24 = of_int (e - 23)"
      by simp
    finally have "y = of_int 1 * 2 powr of_int (e + 1)"
      unfolding yk 2 by (simp add: two_powr_numeral)
    then show ?thesis
      using _ _ le by (rule f32_round_exact) (use e in simp_all)
  next
    case 3
    have "(2::real) powr of_int (e + 1) = 2 powr 24 * 2 powr (of_int (e + 1) - 24)"
      by (rule powr_split)
    also have "real_of_int (e + 1) - 24 = of_int (e - 23)"
      by simp
    finally have "y = of_int (- 1) * 2 powr of_int (e + 1)"
      unfolding yk 3 by (simp add: two_powr_numeral)
    then show ?thesis
      using _ _ le by (rule f32_round_exact) (use e in simp_all)
  qed
qed

subsection \<open>Some exponentials and logarithms\<close>

lemma exp_104_ge: "(2::real) ^ 150 \<le> exp 104"
proof -
  have "(2::real) \<le> (1 + 13 / 600 + (13 / 600)\<^sup>2 / 2) ^ 32"
    by (simp add: power2_eq_square power_divide)
  also have "\<dots> \<le> exp (13 / 600) ^ 32"
    using exp_lower_Taylor_quadratic[of "13 / 600 :: real"] by (intro power_mono) simp_all
  also have "\<dots> = exp (52 / 75)"
    using exp_of_nat_mult[of 32 "13 / 600 :: real"] by simp
  finally have "(2::real) ^ 150 \<le> exp (52 / 75) ^ 150"
    by (intro power_mono) simp_all
  also have "\<dots> = exp 104"
    using exp_of_nat_mult[of 150 "52 / 75 :: real"] by simp
  finally show ?thesis .
qed

lemma exp_minus_104_le: "exp (- 104 :: real) \<le> 1 / 2 ^ 150"
proof -
  have "exp (- 104 :: real) = 1 / exp 104"
    by (simp add: exp_minus inverse_eq_divide)
  also have "\<dots> \<le> 1 / 2 ^ 150"
    using exp_104_ge by (intro divide_left_mono) simp_all
  finally show ?thesis .
qed

lemma exp_89_ge: "(2::real) ^ 128 \<le> exp 89"
proof -
  have "(2::real) \<le> (1 + 89 / 1024 + (89 / 1024)\<^sup>2 / 2) ^ 8"
    by (simp add: power2_eq_square power_divide)
  also have "\<dots> \<le> exp (89 / 1024) ^ 8"
    using exp_lower_Taylor_quadratic[of "89 / 1024 :: real"] by (intro power_mono) simp_all
  also have "\<dots> = exp (89 / 128)"
    using exp_of_nat_mult[of 8 "89 / 1024 :: real"] by simp
  finally have "(2::real) ^ 128 \<le> exp (89 / 128) ^ 128"
    by (intro power_mono) simp_all
  also have "\<dots> = exp 89"
    using exp_of_nat_mult[of 128 "89 / 128 :: real"] by simp
  finally show ?thesis .
qed

lemma f32_round_exp_minus_104: "f32_round (exp (- 104)) = Finite 0"
  using exp_minus_104_le by (intro f32_round_underflow) simp

lemma f32_round_exp_89: "f32_round (exp 89) = PosInf"
  using exp_89_ge by (rule f32_round_overflow)

lemma f32_round_1 [simp]: "f32_round 1 = Finite 1"
  using f32_round_exact[of 1 1 0] by (simp add: f32_max_def)

lemma f32_round_2 [simp]: "f32_round 2 = Finite 2"
  using f32_round_exact[of 2 2 0] by (simp add: f32_max_def)

lemma f32_round_minus_104: "f32_round (- 104) = Finite (- 104)"
  using f32_round_exact[of "- 104" "- 104" 0] by (simp add: f32_max_def)

lemma f32_round_eps: "f32_round (1 / 2 ^ 52) = Finite (1 / 2 ^ 52)"
proof -
  have "(1::real) / 2 ^ 52 = of_int 1 * 2 powr of_int (- 52)"
    using two_powr_neg_int[of "- 52"] by simp
  moreover have "\<bar>(1::real) / 2 ^ 52\<bar> \<le> f32_max"
    by (simp add: f32_max_def)
  ultimately show ?thesis
    by (intro f32_round_exact[where m=1 and k="- 52"]) simp_all
qed

lemma ln_eps_bounds: "- 52 < ln (1 / 2 ^ 52 :: real)" "ln (1 / 2 ^ 52 :: real) < - 26"
proof -
  have "ln (1 / 2 ^ 52 :: real) = ln 1 - ln (2 ^ 52)"
    by (rule ln_divide_pos) simp_all
  also have "ln ((2::real) ^ 52) = real 52 * ln 2"
    by (rule ln_realpow)
  finally have e: "ln (1 / 2 ^ 52 :: real) = - 52 * ln 2"
    by simp
  show "- 52 < ln (1 / 2 ^ 52 :: real)"
    unfolding e using ln_2_less_1 by simp
  have "exp (1 / 2 :: real) ^ 2 = exp 1"
    using exp_of_nat_mult[of 2 "1 / 2 :: real"] by simp
  then have "exp (1 / 2 :: real) ^ 2 \<le> 2 ^ 2"
    using exp_le by simp
  then have "exp (1 / 2 :: real) \<le> 2"
    by (rule power2_le_imp_le) simp
  then have "ln (exp (1 / 2 :: real)) \<le> ln 2"
    by (subst ln_le_cancel_iff) simp_all
  then have "1 / 2 \<le> ln (2::real)"
    by simp
  moreover have "ln (2::real) \<noteq> 1 / 2"
  proof
    assume "ln (2::real) = 1 / 2"
    then have "exp (1 / 2 :: real) = 2"
      by (metis exp_ln zero_less_numeral)
    then have "exp (1::real) = 4"
      using \<open>exp (1 / 2 :: real) ^ 2 = exp 1\<close> by simp
    then show False using exp_le by simp
  qed
  ultimately show "ln (1 / 2 ^ 52 :: real) < - 26"
    unfolding e by simp
qed

lemma f32_round_ln_eps:
  "\<exists>y. f32_round (ln (1 / 2 ^ 52)) = Finite y \<and> - 53 < y \<and> y < - 25"
proof -
  define r :: real where "r = ln (1 / 2 ^ 52)"
  have r: "- 52 < r" "r < - 26"
    unfolding r_def by (rule ln_eps_bounds)+
  then have "\<bar>r\<bar> < 2 ^ 127"
    by simp
  then obtain y where y: "f32_round r = Finite y"
    using f32_round_finite by blast
  have "1 / 2 ^ 126 \<le> \<bar>r\<bar>"
  proof -
    have "(1::real) / 2 ^ 126 \<le> 1" by simp
    then show ?thesis using r by linarith
  qed
  then have "f32_ulp r \<le> \<bar>r\<bar> / 2 ^ 23"
    by (rule f32_ulp_le)
  also have "\<dots> \<le> 52 / 2 ^ 23"
    using r by (intro divide_right_mono) simp_all
  also have "\<dots> \<le> 1"
    by simp
  finally have "\<bar>y - r\<bar> \<le> 1 / 2"
    using f32_round_error[OF y] by simp
  then have "- 53 < y \<and> y < - 25"
    using r by linarith
  then show ?thesis
    using y unfolding r_def by blast
qed

section \<open>combine\<close>

subsection \<open>Scatter-accumulate\<close>

lemma index_of_less: "x \<in> set xs \<Longrightarrow> index_of x xs < length xs"
  by (induction xs) auto

lemma nth_index_of: "x \<in> set xs \<Longrightarrow> xs ! index_of x xs = x"
  by (induction xs) auto

lemma add_row_length [simp]: "length (add_row acc p) = length acc"
  by (simp add: add_row_def)

lemma add_row_uniform:
  assumes "\<forall>r \<in> set acc. length r = F" "length (snd p) = F"
  shows "\<forall>r \<in> set (add_row acc p). length r = F"
proof
  fix r assume "r \<in> set (add_row acc p)"
  then have "r \<in> insert (map2 fadd (acc ! fst p) (snd p)) (set acc)"
    unfolding add_row_def using set_update_subset_insert by fastforce
  moreover have "fst p < length acc \<Longrightarrow> length (map2 fadd (acc ! fst p) (snd p)) = F"
    using assms by simp
  moreover have "\<not> fst p < length acc \<Longrightarrow> add_row acc p = acc"
    by (simp add: add_row_def list_update_beyond)
  ultimately show "length r = F"
    using assms(1) \<open>r \<in> set (add_row acc p)\<close> by (cases "fst p < length acc") auto
qed

lemma add_row_nth:
  assumes "\<forall>r \<in> set acc. length r = F" "length (snd p) = F" "b < length acc" "c < F"
  shows "add_row acc p ! b ! c
       = (if fst p = b then fadd (acc ! b ! c) (snd p ! c) else acc ! b ! c)"
  using assms by (simp add: add_row_def nth_list_update)

lemma foldl_add_row_nth:
  assumes "\<forall>r \<in> set acc. length r = F" "\<forall>p \<in> set zs. length (snd p) = F"
    "b < length acc" "c < F"
  shows "foldl add_row acc zs ! b ! c
       = foldl fadd (acc ! b ! c) (map (\<lambda>p. snd p ! c) (filter (\<lambda>p. fst p = b) zs))"
  using assms
proof (induction zs arbitrary: acc)
  case Nil
  then show ?case by simp
next
  case (Cons z zs)
  have "foldl add_row (add_row acc z) zs ! b ! c
      = foldl fadd (add_row acc z ! b ! c) (map (\<lambda>p. snd p ! c) (filter (\<lambda>p. fst p = b) zs))"
    using Cons.prems by (intro Cons.IH add_row_uniform) simp_all
  moreover have "add_row acc z ! b ! c
      = (if fst z = b then fadd (acc ! b ! c) (snd z ! c) else acc ! b ! c)"
    using Cons.prems by (intro add_row_nth) simp_all
  ultimately show ?case by simp
qed

lemma foldl_add_row_length [simp]: "length (foldl add_row acc zs) = length acc"
  by (induction zs arbitrary: acc) simp_all

lemma foldl_add_row_uniform:
  assumes "\<forall>r \<in> set acc. length r = F" "\<forall>p \<in> set zs. length (snd p) = F"
  shows "\<forall>r \<in> set (foldl add_row acc zs). length r = F"
  using assms
proof (induction zs arbitrary: acc)
  case Nil
  then show ?case by simp
next
  case (Cons z zs)
  have "\<forall>r \<in> set (foldl add_row (add_row acc z) zs). length r = F"
    using Cons.prems by (intro Cons.IH add_row_uniform) simp_all
  then show ?case by simp
qed

subsection \<open>The flat ordering, sample by sample\<close>

lemma zip_concat_map:
  "\<forall>e \<in> set es. length (f e) = length (g e) \<Longrightarrow>
   zip (concat (map f es)) (concat (map g es)) = concat (map (\<lambda>e. zip (f e) (g e)) es)"
  by (induction es) simp_all

lemma concat_split_list:
  "sum_list ns = length xs \<Longrightarrow> concat (split_list ns xs) = xs"
proof (induction ns arbitrary: xs)
  case Nil
  then show ?case by simp
next
  case (Cons n ns)
  then have "sum_list ns = length (drop n xs)" by simp
  from Cons.IH[OF this] show ?case by simp
qed

lemma filter_zip_segment:
  assumes "distinct xs" "length ys = length xs"
  shows "map snd (filter (\<lambda>p. fst p = b) (zip xs ys))
       = (if b \<in> set xs then [ys ! index_of b xs] else [])"
  using assms
proof (induction xs arbitrary: ys)
  case Nil
  then show ?case by simp
next
  case (Cons x xs)
  then obtain y ys' where ys: "ys = y # ys'" by (cases ys) auto
  with Cons.prems have "distinct xs" "length ys' = length xs" "x \<notin> set xs" by simp_all
  with Cons.IH[of ys'] show ?case
    unfolding ys by auto
qed

lemma concat_map_if:
  "concat (map (\<lambda>e. if P e then [f e] else []) es) = map f (filter P es)"
  by (induction es) simp_all

subsection \<open>The accumulator for well-shaped expert outputs\<close>

lemma well_shaped_nth:
  assumes "well_shaped d outs d1 d2 d3"
  shows "length outs = length (part_sizes d)"
    and "e < length outs \<Longrightarrow> wf_tensor (outs ! e) \<and> dims (outs ! e) = [part_sizes d ! e, d1, d2, d3]"
  using assms by (auto simp: well_shaped_def list_all2_conv_all_nth)

lemma well_shaped_set:
  assumes "well_shaped d outs d1 d2 d3" "t \<in> set outs"
  shows "wf_tensor t" "tl (dims t) = [d1, d2, d3]" "dims t \<noteq> []" "dims t \<noteq> [0]"
    "length (dims t) = 4" "rowsize t = d1 * d2 * d3"
proof -
  obtain e where "e < length outs" "outs ! e = t"
    using assms(2) unfolding in_set_conv_nth by blast
  then have "wf_tensor t \<and> dims t = [part_sizes d ! e, d1, d2, d3]"
    using well_shaped_nth(2)[OF assms(1)] by blast
  then show "wf_tensor t" "tl (dims t) = [d1, d2, d3]" "dims t \<noteq> []" "dims t \<noteq> [0]"
    "length (dims t) = 4" "rowsize t = d1 * d2 * d3"
    by (simp_all add: rowsize_def)
qed

lemma well_shaped_heads:
  assumes "well_shaped d outs d1 d2 d3"
  shows "map (\<lambda>t. hd (dims t)) outs = part_sizes d"
proof (rule nth_equalityI)
  show "length (map (\<lambda>t. hd (dims t)) outs) = length (part_sizes d)"
    using well_shaped_nth(1)[OF assms] by simp
next
  fix e assume "e < length (map (\<lambda>t. hd (dims t)) outs)"
  then show "map (\<lambda>t. hd (dims t)) outs ! e = part_sizes d ! e"
    using well_shaped_nth(2)[OF assms, of e] by simp
qed

lemma concat_concat_map: "concat (concat xsss) = concat (map concat xsss)"
  by (induction xsss) simp_all

lemma torch_cat_well_shaped:
  assumes "well_shaped d outs d1 d2 d3" and ne: "outs \<noteq> []"
  shows "torch_cat outs = Inr \<lparr>dims = [sum_list (part_sizes d), d1, d2, d3],
                              elems = concat (concat (map rows_of outs))\<rparr>"
proof -
  have "filter (\<lambda>t. \<not> cat_skip t) outs = outs"
    using well_shaped_set(4)[OF assms(1)] by (simp add: cat_skip_def filter_id_conv)
  moreover obtain u us where outs: "outs = u # us"
    using ne by (cases outs) auto
  moreover have "\<forall>t \<in> set outs. dims t \<noteq> [] \<and> tl (dims t) = tl (dims u)"
    using well_shaped_set(2,3)[OF assms(1)] outs by simp
  moreover have "concat (map elems outs) = concat (concat (map rows_of outs))"
  proof -
    have "map elems outs = map (\<lambda>t. concat (rows_of t)) outs"
      using well_shaped_set(1,3)[OF assms(1)] by (intro map_cong) (simp_all add: concat_rows_of)
    moreover have "concat (concat (map rows_of outs)) = concat (map (\<lambda>t. concat (rows_of t)) outs)"
      by (simp add: concat_concat_map comp_def)
    ultimately show ?thesis by (simp only:)
  qed
  moreover have "tl (dims u) = [d1, d2, d3]"
    using well_shaped_set(2)[OF assms(1), of u] outs by simp
  ultimately show ?thesis
    using well_shaped_heads[OF assms(1)] ne by (simp add: torch_cat_def)
qed

lemma rows_well_shaped:
  assumes "well_shaped d outs d1 d2 d3"
  shows "length (concat (map rows_of outs)) = sum_list (part_sizes d)"
    and "\<forall>r \<in> set (concat (map rows_of outs)). length r = d1 * d2 * d3"
proof -
  have "map length (map rows_of outs) = map (\<lambda>t. hd (dims t)) outs"
    by simp
  then show "length (concat (map rows_of outs)) = sum_list (part_sizes d)"
    using well_shaped_heads[OF assms] by (simp add: length_concat comp_def)
  show "\<forall>r \<in> set (concat (map rows_of outs)). length r = d1 * d2 * d3"
    using well_shaped_set(1,3,6)[OF assms] rows_of_uniform by fastforce
qed

lemma concat_replicate_zero:
  "concat (replicate B (replicate F x)) = replicate (B * F) x"
  by (induction B) (simp_all add: replicate_add)

lemma rows_of_zeros:
  "rows_of (torch_zeros [B, d1, d2, d3]) = replicate B (replicate (d1 * d2 * d3) (Finite 0))"
proof -
  have "torch_zeros [B, d1, d2, d3]
      = \<lparr>dims = length (replicate B (replicate (d1 * d2 * d3) (Finite 0))) # [d1, d2, d3],
         elems = concat (replicate B (replicate (d1 * d2 * d3) (Finite 0)))\<rparr>"
    by (simp add: torch_zeros_def concat_replicate_zero mult.assoc)
  then show ?thesis
    by (simp only: rows_of_concat) (subst rows_of_concat; simp)
qed

lemma row_tmap_concat:
  assumes "\<forall>r \<in> set rs. length r = prod_list fs" "i < length rs"
  shows "row (tmap f \<lparr>dims = length rs # fs, elems = concat rs\<rparr>) i = map f (rs ! i)"
proof -
  have "row (tmap f \<lparr>dims = length rs # fs, elems = concat rs\<rparr>) i
      = map f (take (prod_list fs) (drop (i * prod_list fs) (concat rs)))"
    by (simp add: row_def rowsize_def tmap_def take_map drop_map)
  then show ?thesis
    using take_drop_concat_uniform[OF assms] by simp
qed

lemma einsum_rows:
  assumes rs: "\<forall>r \<in> set rs. length r = prod_list [d1, d2, d3]" and len: "length gl = length rs"
  shows "einsum_ijkh_ik (tmap fexp \<lparr>dims = length rs # [d1, d2, d3], elems = concat rs\<rparr>)
           \<lparr>dims = [length gl, 1], elems = gl\<rparr>
       = Inr \<lparr>dims = length rs # [d1, d2, d3], elems = concat (scaled_rows gl rs)\<rparr>"
proof -
  let ?st = "tmap fexp \<lparr>dims = length rs # [d1, d2, d3], elems = concat rs\<rparr>"
  let ?N = "length rs"
  have "map (\<lambda>i. map (\<lambda>v. fmul v (Finite (gl ! (if ?N = 1 then 0 else i))))
             (row ?st (if ?N = 1 then 0 else i))) [0..<?N]
      = map (\<lambda>i. map (\<lambda>v. fmul v (Finite (gl ! i))) (row ?st i)) [0..<?N]"
    by (rule map_cong) auto
  also have "\<dots> = scaled_rows gl rs"
  proof (rule nth_equalityI)
    show "length (map (\<lambda>i. map (\<lambda>v. fmul v (Finite (gl ! i))) (row ?st i)) [0..<?N])
        = length (scaled_rows gl rs)"
      using len by (simp add: scaled_rows_def)
  next
    fix i assume "i < length (map (\<lambda>i. map (\<lambda>v. fmul v (Finite (gl ! i))) (row ?st i)) [0..<?N])"
    then have i: "i < ?N" by simp
    have "row ?st i = map fexp (rs ! i)"
      by (rule row_tmap_concat[OF rs i])
    then show "map (\<lambda>i. map (\<lambda>v. fmul v (Finite (gl ! i))) (row ?st i)) [0..<?N] ! i
        = scaled_rows gl rs ! i"
      using i len by (simp add: scaled_rows_def comp_def)
  qed
  finally have "map (\<lambda>i. map (\<lambda>v. fmul v (Finite (gl ! (if ?N = 1 then 0 else i))))
      (row ?st (if ?N = 1 then 0 else i))) [0..<?N] = scaled_rows gl rs" .
  then show ?thesis
    using len by (simp add: einsum_ijkh_ik_def tmap_def Let_def)
qed

lemma scaled_rows_uniform:
  "\<forall>r \<in> set rs. length r = F \<Longrightarrow> \<forall>r \<in> set (scaled_rows gl rs). length r = F"
  by (auto simp: scaled_rows_def dest: set_zip_rightD)

lemma combined_sum_well_shaped:
  assumes ws: "well_shaped d outs d1 d2 d3" and ne: "outs \<noteq> []"
    and ng: "nonzero_gates d = \<lparr>dims = [length gl, 1], elems = gl\<rparr>"
    and len: "length gl = sum_list (part_sizes d)" "length (batch_index d) = sum_list (part_sizes d)"
    and bi: "\<forall>i \<in> set (batch_index d). i < B"
    and g: "dims (gates d) = B # ds"
  shows "combined_sum d outs True
       = Inr \<lparr>dims = [B, d1, d2, d3],
              elems = concat (foldl add_row (replicate B (replicate (d1 * d2 * d3) (Finite 0)))
                        (zip (batch_index d) (scaled_rows gl (concat (map rows_of outs)))))\<rparr>"
proof -
  let ?rs = "concat (map rows_of outs)"
  let ?src = "scaled_rows gl ?rs"
  have lrs: "length ?rs = sum_list (part_sizes d)"
    and urs: "\<forall>r \<in> set ?rs. length r = d1 * d2 * d3"
    using rows_well_shaped[OF ws] by simp_all
  have urs': "\<forall>r \<in> set ?rs. length r = prod_list [d1, d2, d3]"
    using urs by (simp add: mult.assoc)
  have cat: "torch_cat outs = Inr \<lparr>dims = length ?rs # [d1, d2, d3], elems = concat ?rs\<rparr>"
    using torch_cat_well_shaped[OF ws ne] lrs by simp
  have ein: "einsum_ijkh_ik (tmap fexp \<lparr>dims = length ?rs # [d1, d2, d3], elems = concat ?rs\<rparr>)
        (nonzero_gates d) = Inr \<lparr>dims = length ?rs # [d1, d2, d3], elems = concat ?src\<rparr>"
    unfolding ng using len(1) lrs by (intro einsum_rows[OF urs']) simp
  have "last outs \<in> set outs" using ne by simp
  then have "length (dims (last outs)) = 4" "tl (dims (last outs)) = [d1, d2, d3]"
    using well_shaped_set(2,5)[OF ws] by simp_all
  then have sz: "size_t (last outs) (Suc 0) = Inr d1" "size_t (last outs) 2 = Inr d2"
    "size_t (last outs) 3 = Inr d3"
    by (cases "dims (last outs)"; simp add: size_t_def)+
  have s0: "size_t (gates d) 0 = Inr B"
    using g by (simp add: size_t_def)
  have lsrc: "length ?src = sum_list (part_sizes d)"
    using len(1) lrs by (simp add: scaled_rows_def)
  have usrc: "\<forall>r \<in> set ?src. length r = prod_list [d1, d2, d3]"
    using scaled_rows_uniform[OF urs'] .
  have rsrc: "rows_of \<lparr>dims = length ?rs # [d1, d2, d3], elems = concat ?src\<rparr> = ?src"
    using rows_of_concat[OF usrc] lsrc lrs by simp
  have "index_add0 (torch_zeros [B, d1, d2, d3]) (batch_index d)
          \<lparr>dims = length ?rs # [d1, d2, d3], elems = concat ?src\<rparr>
      = Inr \<lparr>dims = [B, d1, d2, d3],
             elems = concat (foldl add_row (replicate B (replicate (d1 * d2 * d3) (Finite 0)))
                       (zip (batch_index d) ?src))\<rparr>"
    unfolding index_add0_def rsrc rows_of_zeros
    using len(2) lrs bi by (auto simp: torch_zeros_def)
  then show ?thesis
    by (simp add: combined_sum_def cat ein sz s0)
qed

subsection \<open>The accumulated value of one sample\<close>

lemma combined_sum_entry:
  assumes F: "\<forall>p \<in> set zs. length (snd p) = d1 * d2 * d3" and b: "b < B" and c: "c < d1 * d2 * d3"
  shows "row \<lparr>dims = [B, d1, d2, d3],
              elems = concat (foldl add_row (replicate B (replicate (d1 * d2 * d3) (Finite 0))) zs)\<rparr> b ! c
       = float_sum (map (\<lambda>p. snd p ! c) (filter (\<lambda>p. fst p = b) zs))"
proof -
  let ?acc = "foldl add_row (replicate B (replicate (d1 * d2 * d3) (Finite 0))) zs"
  have z: "\<forall>r \<in> set (replicate B (replicate (d1 * d2 * d3) (Finite 0))). length r = d1 * d2 * d3"
    by simp
  have u: "\<forall>r \<in> set ?acc. length r = d1 * d2 * d3"
    by (rule foldl_add_row_uniform[OF z F])
  have "row \<lparr>dims = [B, d1, d2, d3], elems = concat ?acc\<rparr> b
      = take (d1 * d2 * d3) (drop (b * (d1 * d2 * d3)) (concat ?acc))"
    by (simp add: row_def rowsize_def mult.assoc)
  also have "\<dots> = ?acc ! b"
    using b by (intro take_drop_concat_uniform[OF u]) simp
  finally have "row \<lparr>dims = [B, d1, d2, d3], elems = concat ?acc\<rparr> b ! c = ?acc ! b ! c"
    by simp
  also have "\<dots> = foldl fadd (replicate B (replicate (d1 * d2 * d3) (Finite 0)) ! b ! c)
      (map (\<lambda>p. snd p ! c) (filter (\<lambda>p. fst p = b) zs))"
    using b c by (intro foldl_add_row_nth[OF z F]) simp_all
  finally show ?thesis using b c by (simp add: float_sum_def)
qed

lemma scaled_rows_concat:
  assumes "\<forall>e \<in> set es. length (f e) = length (g e)"
  shows "scaled_rows (concat (map f es)) (concat (map g es))
       = concat (map (\<lambda>e. scaled_rows (f e) (g e)) es)"
  by (simp add: scaled_rows_def zip_concat_map[OF assms] map_concat comp_def)

lemma scaled_rows_nth:
  "p < length gl \<Longrightarrow> p < length rs \<Longrightarrow> c < length (rs ! p) \<Longrightarrow>
   scaled_rows gl rs ! p ! c = fmul (fexp (rs ! p ! c)) (Finite (gl ! p))"
  by (simp add: scaled_rows_def)

lemma routed_experts_set:
  "dims g = [B, E] \<Longrightarrow> set (routed_experts g b) = {e. e < E \<and> 0 < at2 g b e}"
  by (auto simp: routed_experts_def)

lemma flat_terms_by_expert:
  assumes g: "dims g = [B, E]" "wf_tensor g" "nonneg g"
    and srt: "argsorts srt (map snd (nonzero g))"
    and ws: "well_shaped (dispatcher_of srt n g) outs d1 d2 d3"
    and b: "b < B" and c: "c < d1 * d2 * d3"
  shows "map (\<lambda>p. snd p ! c) (filter (\<lambda>p. fst p = b)
           (zip (batch_index (dispatcher_of srt n g))
              (scaled_rows (map (\<lambda>(i, e). at2 g i e) (flat_order srt g)) (concat (map rows_of outs)))))
       = map (contribution (dispatcher_of srt n g) outs b c) (routed_experts g b)"
proof -
  let ?d = "dispatcher_of srt n g"
  let ?fl = "flat_order srt g"
  let ?cs = "\<lambda>e. chunk_samples ?d ! e"
  let ?gl = "\<lambda>e. map (\<lambda>i. at2 g i e) (?cs e)"
  let ?rows = "\<lambda>e. rows_of (outs ! e)"
  have gd: "gates ?d = g"
    by (simp add: dispatcher_of_def)
  have lps: "length (part_sizes ?d) = E"
    using g(1) by (simp add: dispatcher_of_def)
  have louts: "length outs = E"
    using well_shaped_nth(1)[OF ws] lps by simp
  have lcs: "length (?cs e) = part_sizes ?d ! e" if "e < E" for e
    by (rule length_chunk_samples_nth[OF g srt that])
  have lrows: "length (?rows e) = part_sizes ?d ! e" if "e < E" for e
    using well_shaped_nth(2)[OF ws, of e] that louts by simp
  have urows: "\<forall>r \<in> set (?rows e). length r = d1 * d2 * d3" if "e < E" for e
  proof -
    have "outs ! e \<in> set outs" using that louts by simp
    then show ?thesis
      using well_shaped_set(1,3,6)[OF ws] rows_of_uniform by fastforce
  qed
  have sum: "sum_list (part_sizes ?d) = length ?fl"
    by (rule sum_part_sizes[OF g srt])
  have bi: "batch_index ?d = concat (map ?cs [0..<E])"
  proof -
    have "concat (chunk_samples ?d) = batch_index ?d"
      unfolding chunk_samples_def using sum
      by (intro concat_split_list) (simp add: dispatcher_of_def)
    moreover have "chunk_samples ?d = map ?cs [0..<E]"
      using length_chunk_samples[OF g srt, of n] by (metis map_nth)
    ultimately show ?thesis by simp
  qed
  have gl: "map (\<lambda>(i, e). at2 g i e) ?fl = concat (map ?gl [0..<E])"
  proof -
    have "?fl = concat (split_list (part_sizes ?d) ?fl)"
      using sum by (simp add: concat_split_list)
    also have "\<dots> = concat (map (\<lambda>e. filter (\<lambda>p. snd p = e) ?fl) [0..<E])"
      by (simp only: split_flat_order[OF g srt])
    finally have fl: "?fl = concat (map (\<lambda>e. filter (\<lambda>p. snd p = e) ?fl) [0..<E])" .
    have "map (\<lambda>(i, e). at2 g i e) ?fl
        = map (\<lambda>(i, e). at2 g i e) (concat (map (\<lambda>e. filter (\<lambda>p. snd p = e) ?fl) [0..<E]))"
      by (rule arg_cong[OF fl])
    also have "\<dots> = concat (map (\<lambda>e. map (\<lambda>(i, e). at2 g i e) (filter (\<lambda>p. snd p = e) ?fl)) [0..<E])"
      by (simp add: map_concat comp_def)
    also have "\<dots> = concat (map ?gl [0..<E])"
    proof (intro arg_cong[where f=concat] map_cong refl)
      fix e assume "e \<in> set [0..<E]"
      then have e: "e < E" by simp
      have "map (\<lambda>(i, e). at2 g i e) (filter (\<lambda>p. snd p = e) ?fl)
          = map (\<lambda>i. at2 g i e) (map fst (filter (\<lambda>p. snd p = e) ?fl))"
        by (auto simp: case_prod_unfold)
      then show "map (\<lambda>(i, e). at2 g i e) (filter (\<lambda>p. snd p = e) ?fl) = ?gl e"
        using e by (simp add: chunk_samples_flat_order[OF g srt])
    qed
    finally show ?thesis .
  qed
  have rows: "concat (map rows_of outs) = concat (map ?rows [0..<E])"
  proof -
    have "map ((!) outs) [0..<E] = outs"
      using louts map_nth[of outs] by simp
    then have "map rows_of outs = map rows_of (map ((!) outs) [0..<E])"
      by (simp only:)
    then show ?thesis by (simp add: comp_def)
  qed
  have src: "scaled_rows (map (\<lambda>(i, e). at2 g i e) ?fl) (concat (map rows_of outs))
      = concat (map (\<lambda>e. scaled_rows (?gl e) (?rows e)) [0..<E])"
    unfolding gl rows using lcs lrows by (intro scaled_rows_concat) simp
  have zipped: "zip (batch_index ?d) (scaled_rows (map (\<lambda>(i, e). at2 g i e) ?fl) (concat (map rows_of outs)))
      = concat (map (\<lambda>e. zip (?cs e) (scaled_rows (?gl e) (?rows e))) [0..<E])"
    unfolding bi src using lcs lrows by (intro zip_concat_map) (simp add: scaled_rows_def)
  have seg: "map (\<lambda>p. snd p ! c) (filter (\<lambda>p. fst p = b) (zip (?cs e) (scaled_rows (?gl e) (?rows e))))
      = (if 0 < at2 g b e then [contribution ?d outs b c e] else [])"
    if e: "e < E" for e
  proof -
    let ?Y = "scaled_rows (?gl e) (?rows e)"
    let ?p = "index_of b (?cs e)"
    have lY: "length ?Y = length (?cs e)"
      using lcs[OF e] lrows[OF e] by (simp add: scaled_rows_def)
    have "map snd (filter (\<lambda>p. fst p = b) (zip (?cs e) ?Y)) = (if b \<in> set (?cs e) then [?Y ! ?p] else [])"
      using filter_zip_segment[OF chunk_samples_distinct[OF g srt e, of n] lY, of b] .
    then have "map (\<lambda>r. r ! c) (map snd (filter (\<lambda>p. fst p = b) (zip (?cs e) ?Y)))
        = (if b \<in> set (?cs e) then [?Y ! ?p ! c] else [])"
      by simp
    then have m: "map (\<lambda>p. snd p ! c) (filter (\<lambda>p. fst p = b) (zip (?cs e) ?Y))
        = (if b \<in> set (?cs e) then [?Y ! ?p ! c] else [])"
      by (simp add: comp_def)
    have mem: "b \<in> set (?cs e) \<longleftrightarrow> 0 < at2 g b e"
      using chunk_samples_set[OF g srt e, of n] b by simp
    have "?Y ! ?p ! c = contribution ?d outs b c e" if "b \<in> set (?cs e)"
    proof -
      have p: "?p < part_sizes ?d ! e"
        using index_of_less[OF that] lcs[OF e] by simp
      have "?rows e ! ?p \<in> set (?rows e)"
        using p lrows[OF e] by simp
      then have "c < length (?rows e ! ?p)"
        using urows[OF e] c by simp
      then have "?Y ! ?p ! c = fmul (fexp (?rows e ! ?p ! c)) (Finite (?gl e ! ?p))"
        using p lcs[OF e] lrows[OF e] by (intro scaled_rows_nth) simp_all
      moreover have "?gl e ! ?p = at2 g b e"
        using p lcs[OF e] nth_index_of[OF that] by simp
      moreover have "?rows e ! ?p = row (outs ! e) ?p"
        using p lrows[OF e] by (simp add: rows_of_nth)
      ultimately show ?thesis
        by (simp add: contribution_def sample_position_def gd)
    qed
    then show ?thesis
      unfolding m using mem by simp
  qed
  have "map (\<lambda>p. snd p ! c) (filter (\<lambda>p. fst p = b) (zip (batch_index ?d)
          (scaled_rows (map (\<lambda>(i, e). at2 g i e) ?fl) (concat (map rows_of outs)))))
      = concat (map (\<lambda>e. map (\<lambda>p. snd p ! c)
          (filter (\<lambda>p. fst p = b) (zip (?cs e) (scaled_rows (?gl e) (?rows e))))) [0..<E])"
    unfolding zipped by (simp add: filter_concat map_concat comp_def)
  also have "\<dots> = concat (map (\<lambda>e. if 0 < at2 g b e then [contribution ?d outs b c e] else []) [0..<E])"
    using seg by (intro arg_cong[where f=concat] map_cong) simp_all
  also have "\<dots> = map (contribution ?d outs b c) (filter (\<lambda>e. 0 < at2 g b e) [0..<E])"
    by (rule concat_map_if)
  finally show ?thesis
    using g(1) by (simp add: routed_experts_def)
qed

lemma row_tmap: "row (tmap f t) i = map f (row t i)"
  by (simp add: row_def tmap_def rowsize_def take_map drop_map)

lemma finfo_float_eps_pos: "0 < finfo_float_eps"
  by (simp add: finfo_float_eps_def)

lemma combine_values:
  assumes g: "dims g = [B, E]" "wf_tensor g" "nonneg g"
    and srt: "argsorts srt (map snd (nonzero g))"
    and ws: "well_shaped (dispatcher_of srt n g) outs d1 d2 d3" and ne: "outs \<noteq> []"
  shows "\<exists>acc r. combined_sum (dispatcher_of srt n g) outs True = Inr acc
    \<and> combine (dispatcher_of srt n g) outs True = Inr r
    \<and> dims acc = [B, d1, d2, d3] \<and> dims r = [B, d1, d2, d3] \<and> wf_tensor acc \<and> wf_tensor r
    \<and> (\<forall>b < B. \<forall>c < d1 * d2 * d3.
          row acc b ! c
            = float_sum (map (contribution (dispatcher_of srt n g) outs b c) (routed_experts g b))
        \<and> row r b ! c = flog (zero_to_eps (row acc b ! c)))"
proof -
  let ?d = "dispatcher_of srt n g"
  let ?fl = "flat_order srt g"
  let ?gl = "map (\<lambda>(i, e). at2 g i e) ?fl"
  let ?F = "d1 * d2 * d3"
  let ?zs = "zip (batch_index ?d) (scaled_rows ?gl (concat (map rows_of outs)))"
  let ?rows = "foldl add_row (replicate B (replicate ?F (Finite 0))) ?zs"
  let ?acc = "\<lparr>dims = [B, d1, d2, d3], elems = concat ?rows\<rparr>"
  let ?r = "tmap flog (tmap zero_to_eps ?acc)"
  have sum: "sum_list (part_sizes ?d) = length ?fl"
    by (rule sum_part_sizes[OF g srt])
  have ng: "nonzero_gates ?d = \<lparr>dims = [length ?gl, 1], elems = ?gl\<rparr>"
    by (simp add: dispatcher_of_def)
  have bi: "\<forall>i \<in> set (batch_index ?d). i < B"
    using fst_flat_order_less[OF g(1) srt] by (simp add: dispatcher_of_def)
  have acc: "combined_sum ?d outs True = Inr ?acc"
    using sum by (intro combined_sum_well_shaped[OF ws ne ng _ _ bi, of "[E]"])
      (simp_all add: dispatcher_of_def g(1))
  then have r: "combine ?d outs True = Inr ?r"
    by (simp add: combine_def)
  have uzs: "\<forall>p \<in> set ?zs. length (snd p) = ?F"
    using scaled_rows_uniform[OF rows_well_shaped(2)[OF ws]] by (auto dest: set_zip_rightD)
  have urows: "\<forall>r \<in> set ?rows. length r = prod_list [d1, d2, d3]"
    using foldl_add_row_uniform[OF _ uzs, of "replicate B (replicate ?F (Finite 0))"]
    by (simp add: mult.assoc)
  have "wf_tensor \<lparr>dims = length ?rows # [d1, d2, d3], elems = concat ?rows\<rparr>"
    by (rule wf_concat_rows[OF urows])
  then have wacc: "wf_tensor ?acc" by simp
  then have wr: "wf_tensor ?r"
    by (simp add: wf_tensor_def tmap_def)
  have "row ?acc b ! c = float_sum (map (contribution ?d outs b c) (routed_experts g b))
        \<and> row ?r b ! c = flog (zero_to_eps (row ?acc b ! c))" if b: "b < B" and c: "c < ?F" for b c
  proof -
    have "row ?acc b ! c = float_sum (map (\<lambda>p. snd p ! c) (filter (\<lambda>p. fst p = b) ?zs))"
      by (rule combined_sum_entry[OF uzs b c])
    also have "map (\<lambda>p. snd p ! c) (filter (\<lambda>p. fst p = b) ?zs)
        = map (contribution ?d outs b c) (routed_experts g b)"
      by (rule flat_terms_by_expert[OF g srt ws b c])
    finally have v: "row ?acc b ! c = float_sum (map (contribution ?d outs b c) (routed_experts g b))" .
    have "length (row ?acc b) = rowsize ?acc"
      using b by (intro length_row[OF wacc]) simp_all
    then have "c < length (row ?acc b)"
      using c by (simp add: rowsize_def mult.assoc)
    then have "row ?r b ! c = flog (zero_to_eps (row ?acc b ! c))"
      by (simp add: row_tmap)
    with v show ?thesis by simp
  qed
  then show ?thesis
    using acc r wacc wr by (intro exI[of _ ?acc] exI[of _ ?r]) (simp add: tmap_def)
qed

section \<open>C2: combine is the float32 logarithm of the gate-weighted sum of exponentials\<close>

lemma init_dispatcher_of:
  assumes "dims g = [B, E]" "wf_tensor g" "argsorts srt (map snd (nonzero g))" "init srt n g = Inr d"
  shows "d = dispatcher_of srt n g"
  using init_ok[OF assms(1-3), of n] assms(4) by simp

lemma sample_position_ok:
  assumes g: "dims g = [B, E]" "wf_tensor g" "nonneg g"
    and srt: "argsorts srt (map snd (nonzero g))"
    and b: "b < B" and e: "e \<in> set (routed_experts g b)"
  shows "e < E \<and> sample_position (dispatcher_of srt n g) e b < part_sizes (dispatcher_of srt n g) ! e
     \<and> chunk_samples (dispatcher_of srt n g) ! e ! sample_position (dispatcher_of srt n g) e b = b"
proof -
  have e': "e < E" "0 < at2 g b e"
    using e by (simp_all add: routed_experts_set[OF g(1)])
  then have "b \<in> set (chunk_samples (dispatcher_of srt n g) ! e)"
    using chunk_samples_set[OF g srt e'(1), of n] b by simp
  then show ?thesis
    using index_of_less nth_index_of length_chunk_samples_nth[OF g srt e'(1), of n] e'(1)
    by (fastforce simp: sample_position_def)
qed

text \<open>Adding a float32 product to zero gives the product: it is a float32 value already.\<close>

lemma fadd_zero_round: "fadd (Finite 0) (f32_round r) = f32_round r"
proof (cases "f32_round r")
  case (Finite y)
  then show ?thesis using f32_round_idem[OF Finite] by simp
qed simp_all

lemma fadd_zero_fmul: "fadd (Finite 0) (fmul x y) = fmul x y"
  by (cases x; cases y) (simp_all add: fadd_zero_round)

lemma float_sum_Nil: "float_sum [] = Finite 0"
  by (simp add: float_sum_def)

lemma float_sum_one: "float_sum [fmul x y] = fmul x y"
  by (simp add: float_sum_def fadd_zero_fmul)

lemma float_sum_two: "float_sum [fmul x y, v] = fadd (fmul x y) v"
  by (simp add: float_sum_def fadd_zero_fmul)

text \<open>
  C2, as amended. For a dispatcher built from a non-negative gate matrix with at least one
  expert and well-shaped float32 expert outputs, \<open>combine\<close> with \<open>multiply_by_gates = True\<close>
  returns a \<open>[B, d1, d2, d3]\<close> tensor. Its entry c of sample b is the float32 logarithm of
  the float32 sum, over the experts e that b is routed to in increasing order, of the
  float32 products \<open>exp (out e)[c] * G[b, e]\<close>, \<open>out e\<close> the row of expert e's output at the
  position where sample b sits in expert e's chunk; a sum that is zero, because b is routed
  to no expert or because the terms underflow, is replaced by \<open>eps\<close> first, and a sum that
  overflows is an infinity. For one expert a the entry is
  \<open>log (exp (out a)[c] * G[b, a])\<close>, for two experts a, a' it is
  \<open>log (exp (out a)[c] * G[b, a] + exp (out a')[c] * G[b, a'])\<close>, in float32 operations.
\<close>

theorem combine_float32_log_sum_exp:
  assumes "dims g = [B, E]" "wf_tensor g" "nonneg g"
    and "argsorts srt (map snd (nonzero g))"
    and "init srt n g = Inr d"
    and "well_shaped d outs d1 d2 d3" and "0 < E"
  shows "\<exists>r. combine d outs True = Inr r \<and> dims r = [B, d1, d2, d3] \<and>
    (\<forall>b < B.
       (\<forall>e \<in> set (routed_experts g b). e < E \<and> sample_position d e b < part_sizes d ! e
           \<and> chunk_samples d ! e ! sample_position d e b = b)
       \<and> (\<forall>c < d1 * d2 * d3.
            row r b ! c
              = flog (zero_to_eps (float_sum (map (contribution d outs b c) (routed_experts g b))))
          \<and> (routed_experts g b = [] \<longrightarrow> row r b ! c = flog (Finite finfo_float_eps))
          \<and> (\<forall>a. routed_experts g b = [a] \<longrightarrow>
               row r b ! c = flog (zero_to_eps
                 (fmul (fexp (row (outs ! a) (sample_position d a b) ! c)) (Finite (at2 g b a)))))
          \<and> (\<forall>a a'. routed_experts g b = [a, a'] \<longrightarrow>
               row r b ! c = flog (zero_to_eps
                 (fadd (fmul (fexp (row (outs ! a) (sample_position d a b) ! c)) (Finite (at2 g b a)))
                       (fmul (fexp (row (outs ! a') (sample_position d a' b) ! c)) (Finite (at2 g b a'))))))))"
proof -
  have d: "d = dispatcher_of srt n g"
    by (rule init_dispatcher_of[OF assms(1,2,4,5)])
  note g = assms(1-3) and srt = assms(4)
  have gd: "gates d = g"
    by (simp add: d dispatcher_of_def)
  have ws: "well_shaped (dispatcher_of srt n g) outs d1 d2 d3"
    using assms(6) d by simp
  have "length outs = E"
    using well_shaped_nth(1)[OF ws] g(1) by (simp add: dispatcher_of_def)
  then have ne: "outs \<noteq> []"
    using assms(7) by auto
  obtain acc r where r: "combine d outs True = Inr r" "dims r = [B, d1, d2, d3]"
    and vals: "\<And>b c. b < B \<Longrightarrow> c < d1 * d2 * d3 \<Longrightarrow>
          row acc b ! c = float_sum (map (contribution d outs b c) (routed_experts g b))
        \<and> row r b ! c = flog (zero_to_eps (row acc b ! c))"
    using combine_values[OF g srt ws ne] unfolding d by blast
  have pos: "\<forall>e \<in> set (routed_experts g b). e < E \<and> sample_position d e b < part_sizes d ! e
           \<and> chunk_samples d ! e ! sample_position d e b = b" if "b < B" for b
    unfolding d using sample_position_ok[OF g srt that] by blast
  have entry: "row r b ! c
              = flog (zero_to_eps (float_sum (map (contribution d outs b c) (routed_experts g b))))
          \<and> (routed_experts g b = [] \<longrightarrow> row r b ! c = flog (Finite finfo_float_eps))
          \<and> (\<forall>a. routed_experts g b = [a] \<longrightarrow>
               row r b ! c = flog (zero_to_eps
                 (fmul (fexp (row (outs ! a) (sample_position d a b) ! c)) (Finite (at2 g b a)))))
          \<and> (\<forall>a a'. routed_experts g b = [a, a'] \<longrightarrow>
               row r b ! c = flog (zero_to_eps
                 (fadd (fmul (fexp (row (outs ! a) (sample_position d a b) ! c)) (Finite (at2 g b a)))
                       (fmul (fexp (row (outs ! a') (sample_position d a' b) ! c)) (Finite (at2 g b a'))))))"
    if b: "b < B" and c: "c < d1 * d2 * d3" for b c
  proof -
    have v: "row r b ! c
        = flog (zero_to_eps (float_sum (map (contribution d outs b c) (routed_experts g b))))"
      using vals[OF b c] by simp
    have em: "row r b ! c = flog (Finite finfo_float_eps)" if "routed_experts g b = []"
      unfolding v that by (simp add: float_sum_Nil zero_to_eps_def)
    have one: "row r b ! c = flog (zero_to_eps
                 (fmul (fexp (row (outs ! a) (sample_position d a b) ! c)) (Finite (at2 g b a))))"
      if "routed_experts g b = [a]" for a
      unfolding v that by (simp add: contribution_def gd float_sum_one)
    have two: "row r b ! c = flog (zero_to_eps
                 (fadd (fmul (fexp (row (outs ! a) (sample_position d a b) ! c)) (Finite (at2 g b a)))
                       (fmul (fexp (row (outs ! a') (sample_position d a' b) ! c)) (Finite (at2 g b a')))))"
      if "routed_experts g b = [a, a']" for a a'
      unfolding v that by (simp add: contribution_def gd float_sum_two)
    show ?thesis using v em one two by blast
  qed
  show ?thesis
    using r pos entry by blast
qed

lemma scenario_eval:
  "part_sizes (dispatcher_of stable_argsort 2 G_scenario) = [2, 2]"
  "chunk_samples (dispatcher_of stable_argsort 2 G_scenario) = [[0, 2], [1, 2]]"
  "routed_experts G_scenario 0 = [0]"
  "routed_experts G_scenario 2 = [0, 1]" "routed_experts G_scenario 3 = []"
  "sample_position (dispatcher_of stable_argsort 2 G_scenario) 0 0 = 0"
  "sample_position (dispatcher_of stable_argsort 2 G_scenario) 0 2 = 1"
  "sample_position (dispatcher_of stable_argsort 2 G_scenario) 1 2 = 1"
  unfolding G_scenario_def by code_simp+

lemma well_shaped_scenario:
  "well_shaped (dispatcher_of stable_argsort 2 G_scenario) outs_scenario 1 1 1"
  by (simp add: well_shaped_def scenario_eval outs_scenario_def wf_tensor_def)

lemma flog_one: "flog (zero_to_eps (fmul (fexp (Finite 0)) (Finite 1))) = Finite 0"
  by (simp add: zero_to_eps_def)

theorem combine_float32_log_sum_exp_witness:
  "\<exists>r. combine (dispatcher_of stable_argsort 2 G_scenario) outs_scenario True = Inr r
     \<and> dims r = [4, 1, 1, 1]
     \<and> row r 0 ! 0 = Finite 0
     \<and> row r 2 ! 0 = flog (zero_to_eps (fadd (fmul (fexp (Finite 1)) (Finite 1))
                                              (fmul (fexp (Finite 3)) (Finite 1))))
     \<and> row r 3 ! 0 = flog (Finite finfo_float_eps)"
proof -
  let ?d = "dispatcher_of stable_argsort 2 G_scenario"
  note G = wf_G_scenario(2,1,3)
  have i: "init stable_argsort 2 G_scenario = Inr ?d"
    by (rule init_ok[OF G(1,2) argsorts_stable_argsort])
  have "0 < (2::nat)" by simp
  from combine_float32_log_sum_exp[OF G argsorts_stable_argsort i well_shaped_scenario this]
  obtain r where r: "combine ?d outs_scenario True = Inr r" "dims r = [4, 1, 1, 1]"
    and v: "\<And>b. b < 4 \<Longrightarrow> (\<forall>c < 1 * 1 * 1.
            (routed_experts G_scenario b = [] \<longrightarrow> row r b ! c = flog (Finite finfo_float_eps))
          \<and> (\<forall>a. routed_experts G_scenario b = [a] \<longrightarrow>
               row r b ! c = flog (zero_to_eps
                 (fmul (fexp (row (outs_scenario ! a) (sample_position ?d a b) ! c))
                       (Finite (at2 G_scenario b a)))))
          \<and> (\<forall>a a'. routed_experts G_scenario b = [a, a'] \<longrightarrow>
               row r b ! c = flog (zero_to_eps
                 (fadd (fmul (fexp (row (outs_scenario ! a) (sample_position ?d a b) ! c))
                             (Finite (at2 G_scenario b a)))
                       (fmul (fexp (row (outs_scenario ! a') (sample_position ?d a' b) ! c))
                             (Finite (at2 G_scenario b a')))))))"
    by blast
  have "row r 3 ! 0 = flog (Finite finfo_float_eps)"
    using v[of 3] scenario_eval(5) by simp
  moreover have "row r 0 ! 0 = flog (zero_to_eps
                 (fmul (fexp (row (outs_scenario ! 0) (sample_position ?d 0 0) ! 0))
                       (Finite (at2 G_scenario 0 0))))"
    using v[of 0] scenario_eval(3) by simp
  moreover have "row r 2 ! 0 = flog (zero_to_eps
                 (fadd (fmul (fexp (row (outs_scenario ! 0) (sample_position ?d 0 2) ! 0))
                             (Finite (at2 G_scenario 2 0)))
                       (fmul (fexp (row (outs_scenario ! 1) (sample_position ?d 1 2) ! 0))
                             (Finite (at2 G_scenario 2 1)))))"
    using v[of 2] scenario_eval(4) by simp
  moreover have "row (outs_scenario ! 0) (sample_position ?d 0 0) ! 0 = Finite 0"
    unfolding scenario_eval(6) by (simp add: outs_scenario_def row_def rowsize_def)
  moreover have "row (outs_scenario ! 0) (sample_position ?d 0 2) ! 0 = Finite 1"
    unfolding scenario_eval(7) by (simp add: outs_scenario_def row_def rowsize_def)
  moreover have "row (outs_scenario ! 1) (sample_position ?d 1 2) ! 0 = Finite 3"
    unfolding scenario_eval(8) by (simp add: outs_scenario_def row_def rowsize_def)
  moreover have "at2 G_scenario 0 0 = 1" "at2 G_scenario 2 0 = 1" "at2 G_scenario 2 1 = 1"
    by (simp_all add: G_scenario_def at2_def)
  ultimately have "row r 3 ! 0 = flog (Finite finfo_float_eps)"
    "row r 0 ! 0 = flog (zero_to_eps (fmul (fexp (Finite 0)) (Finite 1)))"
    "row r 2 ! 0 = flog (zero_to_eps (fadd (fmul (fexp (Finite 1)) (Finite 1))
                                              (fmul (fexp (Finite 3)) (Finite 1))))"
    by (simp_all only:)
  then show ?thesis using r flog_one by auto
qed

lemma combine_one_entry:
  "combine \<lparr>gates = G_one, num_experts = 1, expert_index = [0], batch_index = [0],
            part_sizes = [1], nonzero_gates = \<lparr>dims = [1, 1], elems = [1]\<rparr>\<rparr>
      [\<lparr>dims = [1, 1, 1, 1], elems = [v]\<rparr>] True
   = Inr \<lparr>dims = [1, 1, 1, 1], elems = [flog (zero_to_eps (fmul (fexp v) (Finite 1)))]\<rparr>"
  by (simp add: combine_def combined_sum_def torch_cat_def cat_skip_def tmap_def einsum_ijkh_ik_def
      size_t_def G_one_def index_add0_def torch_zeros_def rows_of_def row_def rowsize_def
      add_row_def fadd_zero_fmul)

lemma flog_eps_range: "\<exists>y. flog (Finite finfo_float_eps) = Finite y \<and> - 53 < y \<and> y < - 25"
  using f32_round_ln_eps by (simp add: finfo_float_eps_def)

lemma init_G_no_expert:
  "init stable_argsort 0 G_no_expert
     = Inr \<lparr>gates = G_no_expert, num_experts = 0, expert_index = [], batch_index = [],
            part_sizes = [], nonzero_gates = \<lparr>dims = [0, 1], elems = []\<rparr>\<rparr>"
  unfolding G_no_expert_def by code_simp

text \<open>
  C2 as stated fails. An expert output of \<open>-104\<close> for a sample routed to one expert with
  gate 1: \<open>exp (-104)\<close> is below half the smallest positive float32 and rounds to zero, the
  accumulator entry is zero and is replaced by \<open>eps\<close>, so the result is \<open>log eps\<close>, about
  \<open>-36\<close>, and not \<open>log (1 * exp (-104)) = -104\<close>. An expert output of 89: \<open>exp 89\<close> is
  beyond the largest float32, and the result is an infinity. And with no expert at all
  (\<open>E = 0\<close>, the empty sequence of outputs) \<open>combine\<close> raises.
\<close>

theorem combine_log_sum_exp_counterexample:
  "init stable_argsort 1 G_one
     = Inr \<lparr>gates = G_one, num_experts = 1, expert_index = [0], batch_index = [0],
            part_sizes = [1], nonzero_gates = \<lparr>dims = [1, 1], elems = [1]\<rparr>\<rparr>
   \<and> routed_experts G_one 0 = [0]
   \<and> combine \<lparr>gates = G_one, num_experts = 1, expert_index = [0], batch_index = [0],
            part_sizes = [1], nonzero_gates = \<lparr>dims = [1, 1], elems = [1]\<rparr>\<rparr>
        [\<lparr>dims = [1, 1, 1, 1], elems = [Finite (- 104)]\<rparr>] True
     = Inr \<lparr>dims = [1, 1, 1, 1], elems = [flog (Finite finfo_float_eps)]\<rparr>
   \<and> flog (Finite finfo_float_eps) \<noteq> Finite (- 104)
   \<and> ln (1 * exp (- 104)) = (- 104 :: real)
   \<and> combine \<lparr>gates = G_one, num_experts = 1, expert_index = [0], batch_index = [0],
            part_sizes = [1], nonzero_gates = \<lparr>dims = [1, 1], elems = [1]\<rparr>\<rparr>
        [\<lparr>dims = [1, 1, 1, 1], elems = [Finite 89]\<rparr>] True
     = Inr \<lparr>dims = [1, 1, 1, 1], elems = [PosInf]\<rparr>
   \<and> init stable_argsort 0 G_no_expert
     = Inr \<lparr>gates = G_no_expert, num_experts = 0, expert_index = [], batch_index = [],
            part_sizes = [], nonzero_gates = \<lparr>dims = [0, 1], elems = []\<rparr>\<rparr>
   \<and> well_shaped \<lparr>gates = G_no_expert, num_experts = 0, expert_index = [], batch_index = [],
            part_sizes = [], nonzero_gates = \<lparr>dims = [0, 1], elems = []\<rparr>\<rparr>
        ([] :: f32 tensor list) 1 1 1
   \<and> isl (combine \<lparr>gates = G_no_expert, num_experts = 0, expert_index = [], batch_index = [],
            part_sizes = [], nonzero_gates = \<lparr>dims = [0, 1], elems = []\<rparr>\<rparr> [] True)"
proof -
  let ?d = "\<lparr>gates = G_one, num_experts = 1, expert_index = [0], batch_index = [0],
            part_sizes = [1], nonzero_gates = \<lparr>dims = [1, 1], elems = [1]\<rparr>\<rparr>"
  have r: "routed_experts G_one 0 = [0]"
    unfolding G_one_def by code_simp
  have e1: "flog (zero_to_eps (fmul (fexp (Finite (- 104))) (Finite 1)))
      = flog (Finite finfo_float_eps)"
    by (simp add: f32_round_exp_minus_104 zero_to_eps_def)
  have c1: "combine ?d [\<lparr>dims = [1, 1, 1, 1], elems = [Finite (- 104)]\<rparr>] True
      = Inr \<lparr>dims = [1, 1, 1, 1], elems = [flog (Finite finfo_float_eps)]\<rparr>"
    by (simp only: combine_one_entry e1)
  have e2: "flog (zero_to_eps (fmul (fexp (Finite 89)) (Finite 1))) = PosInf"
    by (simp add: f32_round_exp_89 zero_to_eps_def)
  have c2: "combine ?d [\<lparr>dims = [1, 1, 1, 1], elems = [Finite 89]\<rparr>] True
      = Inr \<lparr>dims = [1, 1, 1, 1], elems = [PosInf]\<rparr>"
    by (simp only: combine_one_entry e2)
  have ne: "flog (Finite finfo_float_eps) \<noteq> Finite (- 104)"
    using flog_eps_range by auto
  have l: "ln (1 * exp (- 104)) = (- 104 :: real)"
    by simp
  have ws: "well_shaped \<lparr>gates = G_no_expert, num_experts = 0, expert_index = [], batch_index = [],
            part_sizes = [], nonzero_gates = \<lparr>dims = [0, 1], elems = []\<rparr>\<rparr>
        ([] :: f32 tensor list) 1 1 1"
    by (simp add: well_shaped_def)
  have c3: "isl (combine \<lparr>gates = G_no_expert, num_experts = 0, expert_index = [],
      batch_index = [], part_sizes = [], nonzero_gates = \<lparr>dims = [0, 1], elems = []\<rparr>\<rparr> [] True)"
    by (simp add: combine_def combined_sum_def torch_cat_def)
  show ?thesis
    by (intro conjI init_G_one r c1 ne l c2 init_G_no_expert ws c3)
qed

section \<open>C5: the values combine returns\<close>


















section \<open>C6: zero entries of the accumulator\<close>

text \<open>
  C6, as amended. Before the logarithm is taken, every entry of the accumulator that is
  exactly zero after \<open>index_add\<close> is replaced by \<open>np.finfo(float).eps = 2^-52\<close>, the machine
  epsilon of a 64-bit float (the gap between 1.0 and the next float); the other entries are
  left as they are.
\<close>

theorem combine_zero_entries_eps:
  assumes "combine d outs m = Inr r"
  shows "\<exists>acc. combined_sum d outs m = Inr acc \<and> dims r = dims acc
    \<and> length (elems r) = length (elems acc)
    \<and> (\<forall>k < length (elems acc).
          (elems acc ! k = Finite 0 \<longrightarrow> elems r ! k = flog (Finite (1 / 2 ^ 52)))
        \<and> (elems acc ! k \<noteq> Finite 0 \<longrightarrow> elems r ! k = flog (elems acc ! k)))"
proof -
  obtain acc where acc: "combined_sum d outs m = Inr acc"
    and r: "r = tmap flog (tmap zero_to_eps acc)"
    using assms unfolding combine_def ebind_eq_Inr by auto
  have e: "elems r ! k = flog (zero_to_eps (elems acc ! k))" if "k < length (elems acc)" for k
    using that by (simp add: r tmap_def del: flog.simps)
  have z: "zero_to_eps (Finite 0) = Finite (1 / 2 ^ 52)"
    by (simp add: zero_to_eps_def finfo_float_eps_def)
  have nz: "zero_to_eps v = v" if "v \<noteq> Finite 0" for v
    using that by (simp add: zero_to_eps_def)
  have "(elems acc ! k = Finite 0 \<longrightarrow> elems r ! k = flog (Finite (1 / 2 ^ 52)))
        \<and> (elems acc ! k \<noteq> Finite 0 \<longrightarrow> elems r ! k = flog (elems acc ! k))"
    if "k < length (elems acc)" for k
    using e[OF that] z nz[of "elems acc ! k"] by (simp del: flog.simps)
  moreover have "dims r = dims acc" "length (elems r) = length (elems acc)"
    by (simp_all add: r tmap_def)
  ultimately show ?thesis
    using acc by blast
qed

lemma init_G_zero:
  "init stable_argsort 1 G_zero
     = Inr \<lparr>gates = G_zero, num_experts = 1, expert_index = [], batch_index = [],
            part_sizes = [0], nonzero_gates = \<lparr>dims = [0, 1], elems = []\<rparr>\<rparr>"
  unfolding G_zero_def by code_simp

lemma combined_sum_G_zero:
  "combined_sum \<lparr>gates = G_zero, num_experts = 1, expert_index = [], batch_index = [],
            part_sizes = [0], nonzero_gates = \<lparr>dims = [0, 1], elems = []\<rparr>\<rparr>
      [\<lparr>dims = [0, 1, 1, 1], elems = []\<rparr>] True
   = Inr \<lparr>dims = [1, 1, 1, 1], elems = [Finite 0]\<rparr>"
  by (simp add: combined_sum_def torch_cat_def cat_skip_def tmap_def einsum_ijkh_ik_def
      size_t_def G_zero_def index_add0_def torch_zeros_def rows_of_def row_def rowsize_def)

lemma combine_G_zero:
  "combine \<lparr>gates = G_zero, num_experts = 1, expert_index = [], batch_index = [],
            part_sizes = [0], nonzero_gates = \<lparr>dims = [0, 1], elems = []\<rparr>\<rparr>
      [\<lparr>dims = [0, 1, 1, 1], elems = []\<rparr>] True
   = Inr \<lparr>dims = [1, 1, 1, 1], elems = [flog (Finite (1 / 2 ^ 52))]\<rparr>"
  unfolding combine_def combined_sum_G_zero
  by (simp add: tmap_def zero_to_eps_def finfo_float_eps_def del: flog.simps)

theorem combine_zero_entries_eps_witness:
  "\<exists>acc. combined_sum \<lparr>gates = G_zero, num_experts = 1, expert_index = [], batch_index = [],
            part_sizes = [0], nonzero_gates = \<lparr>dims = [0, 1], elems = []\<rparr>\<rparr>
      [\<lparr>dims = [0, 1, 1, 1], elems = []\<rparr>] True = Inr acc
    \<and> elems acc ! 0 = Finite 0
    \<and> elems \<lparr>dims = [1, 1, 1, 1], elems = [flog (Finite (1 / 2 ^ 52))]\<rparr> ! 0
        = flog (Finite (1 / 2 ^ 52))"
  using combine_zero_entries_eps[OF combine_G_zero] combined_sum_G_zero by simp

text \<open>
  C6 as stated fails: the value written into a zero entry is \<open>2^-52\<close>, which is larger
  than the smallest positive value of either floating type, normal or subnormal.
\<close>

theorem combine_zero_entries_counterexample:
  "init stable_argsort 1 G_zero
     = Inr \<lparr>gates = G_zero, num_experts = 1, expert_index = [], batch_index = [],
            part_sizes = [0], nonzero_gates = \<lparr>dims = [0, 1], elems = []\<rparr>\<rparr>
   \<and> combined_sum \<lparr>gates = G_zero, num_experts = 1, expert_index = [], batch_index = [],
            part_sizes = [0], nonzero_gates = \<lparr>dims = [0, 1], elems = []\<rparr>\<rparr>
      [\<lparr>dims = [0, 1, 1, 1], elems = []\<rparr>] True
     = Inr \<lparr>dims = [1, 1, 1, 1], elems = [Finite 0]\<rparr>
   \<and> combine \<lparr>gates = G_zero, num_experts = 1, expert_index = [], batch_index = [],
            part_sizes = [0], nonzero_gates = \<lparr>dims = [0, 1], elems = []\<rparr>\<rparr>
      [\<lparr>dims = [0, 1, 1, 1], elems = []\<rparr>] True
     = Inr \<lparr>dims = [1, 1, 1, 1], elems = [flog (Finite finfo_float_eps)]\<rparr>
   \<and> float32_smallest_subnormal < finfo_float_eps
   \<and> float32_smallest_normal < finfo_float_eps
   \<and> float64_smallest_subnormal < finfo_float_eps
   \<and> float64_smallest_normal < finfo_float_eps"
proof -
  have "(1 :: real) / 2 ^ 149 < 1 / 2 ^ 52" "(1 :: real) / 2 ^ 126 < 1 / 2 ^ 52"
    "(1 :: real) / 2 ^ 1074 < 1 / 2 ^ 52" "(1 :: real) / 2 ^ 1022 < 1 / 2 ^ 52"
    by (simp_all add: divide_strict_left_mono)
  then have "float32_smallest_subnormal < finfo_float_eps" "float32_smallest_normal < finfo_float_eps"
    "float64_smallest_subnormal < finfo_float_eps" "float64_smallest_normal < finfo_float_eps"
    by (simp_all add: finfo_float_eps_def float32_smallest_subnormal_def float32_smallest_normal_def
        float64_smallest_subnormal_def float64_smallest_normal_def)
  moreover have "combine \<lparr>gates = G_zero, num_experts = 1, expert_index = [], batch_index = [],
            part_sizes = [0], nonzero_gates = \<lparr>dims = [0, 1], elems = []\<rparr>\<rparr>
      [\<lparr>dims = [0, 1, 1, 1], elems = []\<rparr>] True
     = Inr \<lparr>dims = [1, 1, 1, 1], elems = [flog (Finite finfo_float_eps)]\<rparr>"
    unfolding finfo_float_eps_def by (rule combine_G_zero)
  ultimately show ?thesis
    by (intro conjI init_G_zero combined_sum_G_zero)
qed

section \<open>C8: experts without samples\<close>







section \<open>C10: the rank of the expert outputs\<close>

lemma torch_cat_Inr:
  assumes "torch_cat ts = Inr c"
  shows "ts \<noteq> []" and "\<forall>t \<in> set ts. dims t = [0] \<or> (dims t \<noteq> [] \<and> tl (dims t) = tl (dims c))"
proof -
  show ne: "ts \<noteq> []"
    using assms by (auto simp: torch_cat_def)
  show "\<forall>t \<in> set ts. dims t = [0] \<or> (dims t \<noteq> [] \<and> tl (dims t) = tl (dims c))"
  proof (cases "filter (\<lambda>t. \<not> cat_skip t) ts")
    case Nil
    then have "\<forall>t \<in> set ts. cat_skip t"
      by (simp add: filter_empty_conv)
    then show ?thesis by (simp add: cat_skip_def)
  next
    case (Cons u us)
    then have all: "\<forall>t \<in> set (u # us). dims t \<noteq> [] \<and> tl (dims t) = tl (dims u)"
      and c: "tl (dims c) = tl (dims u)"
      using assms ne by (auto simp: torch_cat_def split: if_splits)
    show ?thesis
    proof
      fix t assume t: "t \<in> set ts"
      show "dims t = [0] \<or> (dims t \<noteq> [] \<and> tl (dims t) = tl (dims c))"
      proof (cases "cat_skip t")
        case True
        then show ?thesis by (simp add: cat_skip_def)
      next
        case False
        then have "t \<in> set (filter (\<lambda>t. \<not> cat_skip t) ts)"
          using t by simp
        then have "t \<in> set (u # us)"
          unfolding Cons .
        then show ?thesis using all c by auto
      qed
    qed
  qed
qed

lemma einsum_Inr:
  assumes "einsum_ijkh_ik st g = Inr r"
  shows "length (dims st) = 4" "tl (dims r) = tl (dims st)"
  using assms by (auto simp: einsum_ijkh_ik_def Let_def split: if_splits)

lemma index_add0_Inr:
  assumes "index_add0 self idx src = Inr r"
  shows "tl (dims self) = tl (dims src)" "dims r = dims self" "dims src \<noteq> []"
  using assms by (auto simp: index_add0_def split: if_splits)

lemma size_t_Inr: "size_t t k = Inr s \<Longrightarrow> k < length (dims t) \<and> s = dims t ! k"
  by (auto simp: size_t_def split: if_splits)

text \<open>
  C10, as amended. Whenever \<open>combine\<close> returns a result (with or without the gate
  scaling), the sequence of expert outputs is not empty, its last tensor is 4-D, and every
  tensor in it is 4-D or a 1-D empty tensor of shape \<open>(0,)\<close>, which \<open>torch.cat\<close> skips; the
  result has shape \<open>[B, s1, s2, s3]\<close>, B the number of gate rows and \<open>s1, s2, s3\<close> the
  dimensions 1, 2, 3 of the last expert output. In every other case \<open>combine\<close> fails.
\<close>

theorem combine_requires_rank_four:
  assumes "combine d outs m = Inr r"
  shows "outs \<noteq> [] \<and> length (dims (last outs)) = 4
    \<and> (\<forall>t \<in> set outs. length (dims t) = 4 \<or> dims t = [0])
    \<and> dims (gates d) \<noteq> []
    \<and> dims r = [dims (gates d) ! 0, dims (last outs) ! 1, dims (last outs) ! 2, dims (last outs) ! 3]"
proof -
  obtain acc where acc: "combined_sum d outs m = Inr acc" and racc: "dims r = dims acc"
    using assms unfolding combine_def ebind_eq_Inr by (auto simp: tmap_def)
  from acc obtain c st s0 s1 s2 s3 where cat: "torch_cat outs = Inr c"
    and st: "(if m then einsum_ijkh_ik (tmap fexp c) (nonzero_gates d) else Inr (tmap fexp c)) = Inr st"
    and sz: "size_t (gates d) 0 = Inr s0" "size_t (last outs) 1 = Inr s1"
      "size_t (last outs) 2 = Inr s2" "size_t (last outs) 3 = Inr s3"
    and ia: "index_add0 (torch_zeros [s0, s1, s2, s3]) (batch_index d) st = Inr acc"
    unfolding combined_sum_def ebind_eq_Inr by blast
  have ne: "outs \<noteq> []" and shapes: "\<forall>t \<in> set outs. dims t = [0] \<or> (dims t \<noteq> [] \<and> tl (dims t) = tl (dims c))"
    using torch_cat_Inr[OF cat] by simp_all
  have "tl (dims st) = tl (dims c)"
  proof (cases m)
    case True
    then show ?thesis using st einsum_Inr(2)[of "tmap fexp c" "nonzero_gates d" st]
      by (simp add: tmap_def)
  next
    case False
    then show ?thesis using st by (auto simp: tmap_def)
  qed
  moreover have "tl (dims (torch_zeros [s0, s1, s2, s3])) = tl (dims st)"
    by (rule index_add0_Inr(1)[OF ia])
  ultimately have tlc: "tl (dims c) = [s1, s2, s3]"
    by (simp add: torch_zeros_def)
  have four: "length (dims t) = 4 \<or> dims t = [0]" if "t \<in> set outs" for t
  proof -
    from shapes that have "dims t = [0] \<or> (dims t \<noteq> [] \<and> tl (dims t) = [s1, s2, s3])"
      unfolding tlc by blast
    then show ?thesis by (cases "dims t") auto
  qed
  have l3: "3 < length (dims (last outs))" and s: "s1 = dims (last outs) ! 1"
    "s2 = dims (last outs) ! 2" "s3 = dims (last outs) ! 3"
    using size_t_Inr[OF sz(2)] size_t_Inr[OF sz(3)] size_t_Inr[OF sz(4)] by simp_all
  have "last outs \<in> set outs" using ne by simp
  then have lastfour: "length (dims (last outs)) = 4"
    using four[of "last outs"] l3 by auto
  have g0: "dims (gates d) \<noteq> []" "s0 = dims (gates d) ! 0"
    using size_t_Inr[OF sz(1)] by auto
  have "dims r = [s0, s1, s2, s3]"
    using index_add0_Inr(2)[OF ia] racc by (simp add: torch_zeros_def)
  then show ?thesis
    using ne lastfour four g0 s by simp
qed

lemma init_G_second_of_two:
  "init stable_argsort 2 G_second_of_two
     = Inr \<lparr>gates = G_second_of_two, num_experts = 2, expert_index = [1], batch_index = [0],
            part_sizes = [0, 1], nonzero_gates = \<lparr>dims = [1, 1], elems = [1]\<rparr>\<rparr>"
  unfolding G_second_of_two_def by code_simp

lemma combine_skipped_empty:
  "combine \<lparr>gates = G_second_of_two, num_experts = 2, expert_index = [1], batch_index = [0],
            part_sizes = [0, 1], nonzero_gates = \<lparr>dims = [1, 1], elems = [1]\<rparr>\<rparr>
      [\<lparr>dims = [0], elems = []\<rparr>, \<lparr>dims = [1, 1, 1, 1], elems = [Finite 0]\<rparr>] True
   = Inr \<lparr>dims = [1, 1, 1, 1], elems = [Finite 0]\<rparr>"
  by (simp add: combine_def combined_sum_def torch_cat_def cat_skip_def tmap_def einsum_ijkh_ik_def
      size_t_def G_second_of_two_def index_add0_def torch_zeros_def rows_of_def row_def rowsize_def
      add_row_def zero_to_eps_def)

theorem combine_requires_rank_four_witness:
  "[\<lparr>dims = [0], elems = []\<rparr>, \<lparr>dims = [1, 1, 1, 1], elems = [Finite 0]\<rparr>] \<noteq> []
   \<and> length (dims (last [\<lparr>dims = [0], elems = []\<rparr>, \<lparr>dims = [1, 1, 1, 1], elems = [Finite 0]\<rparr>])) = 4
   \<and> dims G_second_of_two \<noteq> []
   \<and> dims \<lparr>dims = [1, 1, 1, 1], elems = [Finite 0]\<rparr> = [dims G_second_of_two ! 0, 1, 1, 1]"
  using combine_requires_rank_four[OF combine_skipped_empty] by simp

text \<open>
  C10 as stated fails: an expert without samples may return a 1-D empty tensor, which is
  not 4-D; \<open>torch.cat\<close> skips it and \<open>combine\<close> returns a result.
\<close>

theorem combine_requires_rank_four_counterexample:
  "init stable_argsort 2 G_second_of_two
     = Inr \<lparr>gates = G_second_of_two, num_experts = 2, expert_index = [1], batch_index = [0],
            part_sizes = [0, 1], nonzero_gates = \<lparr>dims = [1, 1], elems = [1]\<rparr>\<rparr>
   \<and> combine \<lparr>gates = G_second_of_two, num_experts = 2, expert_index = [1], batch_index = [0],
            part_sizes = [0, 1], nonzero_gates = \<lparr>dims = [1, 1], elems = [1]\<rparr>\<rparr>
      [\<lparr>dims = [0], elems = []\<rparr>, \<lparr>dims = [1, 1, 1, 1], elems = [Finite 0]\<rparr>] True
     = Inr \<lparr>dims = [1, 1, 1, 1], elems = [Finite 0]\<rparr>
   \<and> length (dims \<lparr>dims = [0], elems = [] :: f32 list\<rparr>) \<noteq> 4"
  using init_G_second_of_two combine_skipped_empty by simp

section \<open>C9: the methods leave the attributes alone\<close>

lemma frame_weaken: "frame n m Q \<Longrightarrow> (\<And>v. Q v \<Longrightarrow> R v) \<Longrightarrow> frame n m R"
  by (fastforce simp: frame_def split: prod.splits sum.splits)

lemma frame_sreturn: "Q v \<Longrightarrow> frame n (sreturn v) Q"
  by (simp add: frame_def sreturn_def)

lemma frame_lift: "frame n (lift r) (\<lambda>_. True)"
  by (simp add: frame_def lift_def split: sum.splits)

lemma frame_new: "frame n (new v) (\<lambda>a. n \<le> a)"
  by (simp add: frame_def new_def)

lemma frame_write: "n \<le> a \<Longrightarrow> frame n (overwrite a v) (\<lambda>_. True)"
  by (simp add: frame_def overwrite_def)

lemma frame_read_floats: "frame n (read_floats a) (\<lambda>_. True)"
  by (simp add: frame_def read_floats_def split: obj.splits)

lemma frame_read_ints: "frame n (read_ints a) (\<lambda>_. True)"
  by (simp add: frame_def read_ints_def split: obj.splits)

lemma frame_read_obj: "frame n (read_obj a) (\<lambda>_. True)"
  by (simp add: frame_def read_obj_def)

lemma frame_read_f32: "frame n (read_f32 a) (\<lambda>_. True)"
  by (simp add: frame_def read_f32_def split: obj.splits)

lemma frame_sbind:
  assumes "frame n m Q" "\<And>v. Q v \<Longrightarrow> frame n (f v) R"
  shows "frame n (sbind m f) R"
  unfolding frame_def
proof (intro allI impI)
  fix h :: heap assume h: "n \<le> length h"
  obtain r h' where m: "m h = (r, h')" by (cases "m h")
  with assms(1) h have 1: "n \<le> length h'" "take n h' = take n h"
    and q: "\<And>v. r = Inr v \<Longrightarrow> Q v"
    by (auto simp: frame_def)
  show "case sbind m f h of (r, h') \<Rightarrow> n \<le> length h' \<and> take n h' = take n h
        \<and> (case r of Inl e \<Rightarrow> True | Inr v \<Rightarrow> R v)"
  proof (cases r)
    case (Inl e)
    then show ?thesis using m 1 by (simp add: sbind_def)
  next
    case (Inr v)
    then have "frame n (f v) R" using assms(2) q by simp
    then show ?thesis
      using m Inr 1 by (auto simp: sbind_def frame_def split: prod.splits)
  qed
qed

lemma frame_sbind_any:
  assumes "frame n m (\<lambda>_. True)" "\<And>v. frame n (f v) R"
  shows "frame n (sbind m f) R"
  using assms by (intro frame_sbind[where Q="\<lambda>_. True"]) simp_all

lemma frame_read_all: "frame n (read_all as) (\<lambda>_. True)"
  by (induction as) (auto intro!: frame_sbind_any frame_sreturn frame_read_f32)

lemma frame_read_self: "frame n (read_self s) (\<lambda>_. True)"
  unfolding read_self_def
  by (intro frame_sbind_any frame_read_floats frame_read_ints frame_sreturn) simp

lemma frame_new_any: "frame n (new v) (\<lambda>_. True)"
  by (rule frame_weaken[OF frame_new]) simp

lemma frame_dispatch_new: "frame n (dispatch_new d x mk) (\<lambda>_. True)"
  unfolding dispatch_new_def
  by (intro frame_sbind_any frame_lift frame_new_any frame_sreturn) simp

lemma frame_dispatch_st: "frame n (dispatch_st s inp) (\<lambda>_. True)"
proof -
  have "frame n (case x of Floats t \<Rightarrow> dispatch_new d t Floats
                         | Ints xs \<Rightarrow> dispatch_new d \<lparr>dims = [length xs], elems = xs\<rparr> (\<lambda>t. Ints (elems t))
                         | F32s t \<Rightarrow> dispatch_new d t F32s) (\<lambda>_. True)" for d x
    by (cases x) (simp_all add: frame_dispatch_new)
  then show ?thesis
    unfolding dispatch_st_def by (intro frame_sbind_any frame_read_self frame_read_obj)
qed

lemma frame_expert_to_gates_st: "frame n (expert_to_gates_st s) (\<lambda>_. True)"
  unfolding expert_to_gates_st_def
  by (intro frame_sbind_any frame_read_self frame_lift)

lemma frame_stitched:
  "frame n (if m then sbind (lift (einsum_ijkh_ik x g)) (\<lambda>st. sbind (new (F32s st)) (\<lambda>_. sreturn st))
            else sreturn x) (\<lambda>_. True)"
  by (cases m) (auto intro!: frame_sbind_any frame_lift frame_new_any frame_sreturn)

lemma frame_floor_log:
  "frame n (sbind (new (F32s combined)) (\<lambda>a.
            sbind (overwrite a v) (\<lambda>_.
            sbind (new w) (\<lambda>_. sreturn r)))) (\<lambda>_. True)"
proof (rule frame_sbind[OF frame_new])
  fix a assume "n \<le> a"
  then show "frame n (sbind (overwrite a v) (\<lambda>_. sbind (new w) (\<lambda>_. sreturn r))) (\<lambda>_. True)"
    by (intro frame_sbind_any frame_write frame_new_any frame_sreturn) simp_all
qed

lemma frame_combine_st: "frame n (combine_st s outs m) (\<lambda>_. True)"
  unfolding combine_st_def
  by (intro frame_sbind_any frame_read_self frame_read_all frame_lift frame_new_any
      frame_stitched frame_floor_log)

lemma frame_snd:
  assumes "frame n m Q" "n \<le> length h"
  shows "n \<le> length (snd (m h)) \<and> take n (snd (m h)) = take n h"
  using assms by (cases "m h") (auto simp: frame_def)

lemma frame_exec:
  assumes "n \<le> length h"
  shows "n \<le> length (exec s c h) \<and> take n (exec s c h) = take n h"
proof (cases c)
  case (Dispatch inp)
  then show ?thesis
    using frame_snd[OF frame_dispatch_st assms, of s inp] by simp
next
  case (Combine outs m)
  then show ?thesis
    using frame_snd[OF frame_combine_st assms, of s outs m] by simp
next
  case ExpertToGates
  then show ?thesis
    using frame_snd[OF frame_expert_to_gates_st assms, of s] by simp
qed

lemma frame_run:
  "n \<le> length h \<Longrightarrow> n \<le> length (run s cs h) \<and> take n (run s cs h) = take n h"
proof (induction cs arbitrary: h)
  case Nil
  then show ?case by simp
next
  case (Cons c cs)
  have 1: "n \<le> length (exec s c h)" "take n (exec s c h) = take n h"
    using frame_exec[OF Cons.prems] by simp_all
  from Cons.IH[OF 1(1)] 1(2) show ?case by simp
qed

lemma sbind_Inr_iff:
  "sbind m f h = (Inr v, h') \<longleftrightarrow> (\<exists>u h1. m h = (Inr u, h1) \<and> f u h1 = (Inr v, h'))"
  by (auto simp: sbind_def split: prod.splits sum.splits)

lemma read_floats_same: "snd (read_floats a h) = h"
  by (simp add: read_floats_def split: obj.splits)

lemma read_ints_same: "snd (read_ints a h) = h"
  by (simp add: read_ints_def split: obj.splits)

lemma read_f32_same: "snd (read_f32 a h) = h"
  by (simp add: read_f32_def split: obj.splits)

lemma read_floats_take:
  assumes "a < n" "n \<le> length h" "n \<le> length h'" "take n h' = take n h"
  shows "fst (read_floats a h') = fst (read_floats a h)"
proof -
  have "h' ! a = h ! a"
    using assms by (metis nth_take)
  then show ?thesis
    using assms by (simp add: read_floats_def split: obj.splits)
qed

lemma read_ints_take:
  assumes "a < n" "n \<le> length h" "n \<le> length h'" "take n h' = take n h"
  shows "fst (read_ints a h') = fst (read_ints a h)"
proof -
  have "h' ! a = h ! a"
    using assms by (metis nth_take)
  then show ?thesis
    using assms by (simp add: read_ints_def split: obj.splits)
qed

lemma sbind_read_fst:
  assumes "snd (m h) = h" "snd (m h') = h'" "fst (m h') = fst (m h)"
    "\<And>v. fst (f v h') = fst (f v h)"
  shows "fst (sbind m f h') = fst (sbind m f h)"
  using assms by (cases "m h"; cases "m h'") (auto simp: sbind_def split: sum.splits)

lemma read_self_take:
  assumes refs: "gates_ref s < n" "expert_index_ref s < n" "batch_index_ref s < n"
    "part_sizes_ref s < n" "nonzero_gates_ref s < n"
    and h: "n \<le> length h" "n \<le> length h'" "take n h' = take n h"
  shows "fst (read_self s h') = fst (read_self s h)"
  unfolding read_self_def
  by (intro sbind_read_fst read_floats_same read_ints_same
      read_floats_take[OF _ h] read_ints_take[OF _ h] refs) (simp add: sreturn_def)

lemma init_fields: "init srt n g = Inr d \<Longrightarrow> gates d = g \<and> num_experts d = n"
  by (auto simp: init_def ebind_eq_Inr Let_def torch_sort_def split: if_splits)

lemma init_st_Inr:
  assumes "init_st srt n g_at h = (Inr s, h0)"
  shows "\<exists>g d. g_at < length h \<and> h ! g_at = Floats g \<and> init srt n g = Inr d
    \<and> h0 = h @ [Ints (expert_index d), Ints (batch_index d), Ints (part_sizes d),
                Floats (nonzero_gates d)]
    \<and> s = \<lparr>gates_ref = g_at, expert_index_ref = length h, batch_index_ref = length h + 1,
            part_sizes_ref = length h + 2, nonzero_gates_ref = length h + 3,
            num_experts_val = n\<rparr>"
  using assms
  by (auto simp: init_st_def sbind_Inr_iff read_floats_def lift_def new_def sreturn_def
      split: if_splits obj.splits)

lemma read_self_after_init:
  assumes "g_at < length h" "h ! g_at = Floats g" "init srt n g = Inr d"
  shows "read_self \<lparr>gates_ref = g_at, expert_index_ref = length h, batch_index_ref = length h + 1,
            part_sizes_ref = length h + 2, nonzero_gates_ref = length h + 3,
            num_experts_val = n\<rparr>
          (h @ [Ints (expert_index d), Ints (batch_index d), Ints (part_sizes d),
                Floats (nonzero_gates d)])
       = (Inr d, h @ [Ints (expert_index d), Ints (batch_index d), Ints (part_sizes d),
                Floats (nonzero_gates d)])"
  using assms init_fields[OF assms(3)]
  by (simp add: read_self_def sbind_def read_floats_def read_ints_def sreturn_def nth_append)

lemma read_self_same: "snd (read_self s h) = h"
  by (simp add: read_self_def sbind_def sreturn_def read_floats_def read_ints_def
      split: prod.splits sum.splits obj.splits)

lemma read_all_same: "snd (read_all as h) = h"
proof (induction as)
  case Nil
  then show ?case by (simp add: sreturn_def)
next
  case (Cons a as)
  obtain r where r: "read_f32 a h = (r, h)"
    using read_f32_same[of a h] by (cases "read_f32 a h") simp
  obtain q where q: "read_all as h = (q, h)"
    using Cons by (cases "read_all as h") simp
  show ?case
    by (cases r; cases q) (simp_all add: sbind_def r q sreturn_def)
qed

text \<open>The methods on the store return what the methods on values return.\<close>

lemma dispatch_new_value:
  "fst (dispatch_new d x mk h) = ebind (dispatch d x) (\<lambda>cs. Inr (map mk cs))"
  by (simp add: dispatch_new_def dispatch_def sbind_def lift_def new_def ebind_def sreturn_def
      split: sum.splits)

lemma dispatch_st_value:
  assumes "read_self s h = (Inr d, h)" "inp < length h"
  shows "h ! inp = Floats x \<Longrightarrow>
           fst (dispatch_st s inp h) = ebind (dispatch d x) (\<lambda>cs. Inr (map Floats cs))"
    and "h ! inp = F32s y \<Longrightarrow>
           fst (dispatch_st s inp h) = ebind (dispatch d y) (\<lambda>cs. Inr (map F32s cs))"
  using assms by (simp_all add: dispatch_st_def sbind_def read_obj_def dispatch_new_value)

lemma expert_to_gates_st_value:
  assumes "read_self s h = (Inr d, h)"
  shows "fst (expert_to_gates_st s h) = expert_to_gates d"
  using assms by (simp add: expert_to_gates_st_def sbind_def lift_def)

lemma combine_st_value:
  assumes "read_self s h = (Inr d, h)" "read_all outs h = (Inr ts, h)"
  shows "fst (combine_st s outs m h) = combine d ts m"
  using assms
  by (simp add: combine_st_def combine_def combined_sum_def sbind_def lift_def new_def ebind_def
      overwrite_def sreturn_def split: sum.splits)

text \<open>
  C9. After construction, and after any sequence of calls of \<open>dispatch\<close>, \<open>combine\<close> and
  \<open>expert_to_gates\<close> on any arguments (failing calls included), the attributes read from
  the store are the dispatcher the constructor built, and the stored objects \<open>gates\<close>,
  \<open>expert_index\<close>, \<open>batch_index\<close>, \<open>part_sizes\<close> and \<open>nonzero_gates\<close> are the ones stored at
  construction.
\<close>

theorem derived_state_unchanged:
  assumes "init_st srt n g_at h = (Inr s, h0)"
  shows "\<exists>d. read_self s h0 = (Inr d, h0)
    \<and> fst (read_self s (run s calls h0)) = Inr d
    \<and> run s calls h0 ! gates_ref s = h0 ! gates_ref s
    \<and> run s calls h0 ! expert_index_ref s = h0 ! expert_index_ref s
    \<and> run s calls h0 ! batch_index_ref s = h0 ! batch_index_ref s
    \<and> run s calls h0 ! part_sizes_ref s = h0 ! part_sizes_ref s
    \<and> run s calls h0 ! nonzero_gates_ref s = h0 ! nonzero_gates_ref s"
proof -
  obtain g d where g: "g_at < length h" "h ! g_at = Floats g" "init srt n g = Inr d"
    and h0: "h0 = h @ [Ints (expert_index d), Ints (batch_index d), Ints (part_sizes d),
                Floats (nonzero_gates d)]"
    and s: "s = \<lparr>gates_ref = g_at, expert_index_ref = length h, batch_index_ref = length h + 1,
            part_sizes_ref = length h + 2, nonzero_gates_ref = length h + 3,
            num_experts_val = n\<rparr>"
    using init_st_Inr[OF assms] by blast
  have rs: "read_self s h0 = (Inr d, h0)"
    unfolding s h0 by (rule read_self_after_init[OF g])
  let ?n = "length h0"
  let ?h' = "run s calls h0"
  have refs: "gates_ref s < ?n" "expert_index_ref s < ?n" "batch_index_ref s < ?n"
    "part_sizes_ref s < ?n" "nonzero_gates_ref s < ?n"
    using g(1) by (simp_all add: s h0)
  have fr: "?n \<le> length ?h'" "take ?n ?h' = take ?n h0"
    using frame_run[of ?n h0 s calls] by simp_all
  have same: "?h' ! a = h0 ! a" if "a < ?n" for a
    using fr that by (metis nth_take)
  have "fst (read_self s ?h') = fst (read_self s h0)"
    by (rule read_self_take[OF refs _ fr]) simp
  then have "fst (read_self s ?h') = Inr d"
    using rs by simp
  then show ?thesis
    using rs same refs by blast
qed

lemma init_st_scenario:
  "init_st stable_argsort 2 0 heap_scenario
     = (Inr \<lparr>gates_ref = 0, expert_index_ref = 3, batch_index_ref = 4, part_sizes_ref = 5,
             nonzero_gates_ref = 6, num_experts_val = 2\<rparr>,
        heap_scenario @ [Ints [0, 0, 1, 1], Ints [0, 2, 1, 2], Ints [2, 2],
                         Floats \<lparr>dims = [4, 1], elems = [1, 1, 1, 1]\<rparr>])"
  unfolding heap_scenario_def G_scenario_def outs_scenario_def by code_simp

theorem derived_state_unchanged_witness:
  "\<exists>d. read_self \<lparr>gates_ref = 0, expert_index_ref = 3, batch_index_ref = 4, part_sizes_ref = 5,
             nonzero_gates_ref = 6, num_experts_val = 2\<rparr>
          (heap_scenario @ [Ints [0, 0, 1, 1], Ints [0, 2, 1, 2], Ints [2, 2],
                         Floats \<lparr>dims = [4, 1], elems = [1, 1, 1, 1]\<rparr>])
        = (Inr d, heap_scenario @ [Ints [0, 0, 1, 1], Ints [0, 2, 1, 2], Ints [2, 2],
                         Floats \<lparr>dims = [4, 1], elems = [1, 1, 1, 1]\<rparr>])
     \<and> fst (read_self \<lparr>gates_ref = 0, expert_index_ref = 3, batch_index_ref = 4, part_sizes_ref = 5,
             nonzero_gates_ref = 6, num_experts_val = 2\<rparr>
          (run \<lparr>gates_ref = 0, expert_index_ref = 3, batch_index_ref = 4, part_sizes_ref = 5,
             nonzero_gates_ref = 6, num_experts_val = 2\<rparr> calls_scenario
            (heap_scenario @ [Ints [0, 0, 1, 1], Ints [0, 2, 1, 2], Ints [2, 2],
                         Floats \<lparr>dims = [4, 1], elems = [1, 1, 1, 1]\<rparr>]))) = Inr d"
  using derived_state_unchanged[OF init_st_scenario, of calls_scenario] by auto

end
